theory Spec2Isabelle
  imports Main
begin

section \<open>Strings of code points\<close>

text \<open>
  A Python \<^verbatim>\<open>str\<close> is a sequence of Unicode code points, and the connective glyphs of
  \<^verbatim>\<open>logic_parser.py\<close> lie beyond one byte, so a string is modelled as the list of its
  code points. \<open>ustr\<close> embeds an ASCII literal.
\<close>

type_synonym ustring = "nat list"

definition ustr :: "string \<Rightarrow> ustring" where
  "ustr s = map of_char s"

definition lparen :: nat where "lparen = 40"
definition rparen :: nat where "rparen = 41"
definition comma :: nat where "comma = 44"
definition space :: nat where "space = 32"

text \<open>
  \<^verbatim>\<open>str.isspace\<close> on one character, and the characters \<^verbatim>\<open>str.strip()\<close> removes:
  the code points CPython classifies as whitespace.
\<close>

definition isspace :: "nat \<Rightarrow> bool" where
  "isspace c \<longleftrightarrow>
     (9 \<le> c \<and> c \<le> 13) \<or> (28 \<le> c \<and> c \<le> 32) \<or> c = 133 \<or> c = 160 \<or> c = 5760 \<or>
     (8192 \<le> c \<and> c \<le> 8202) \<or> c = 8232 \<or> c = 8233 \<or> c = 8239 \<or> c = 8287 \<or> c = 12288"

definition strip :: "ustring \<Rightarrow> ustring" where
  "strip s = rev (dropWhile isspace (rev (dropWhile isspace s)))"

text \<open>\<^verbatim>\<open>sep.join(parts)\<close> and \<^verbatim>\<open>s.split(',')\<close>.\<close>

fun join :: "ustring \<Rightarrow> ustring list \<Rightarrow> ustring" where
  "join sep [] = []"
| "join sep [x] = x"
| "join sep (x # y # ys) = x @ sep @ join sep (y # ys)"

fun split :: "nat \<Rightarrow> ustring \<Rightarrow> ustring list" where
  "split sep [] = [[]]"
| "split sep (c # cs) =
     (if c = sep then [] # split sep cs
      else (case split sep cs of [] \<Rightarrow> [[c]] | p # ps \<Rightarrow> (c # p) # ps))"

section \<open>Operators and expressions (logic\_parser.py)\<close>

datatype LogicalOperator = AND | OR | NOT | IMPLIES | IFF

text \<open>The value of each enumeration member: the canonical glyph, one code point.\<close>

fun op_value :: "LogicalOperator \<Rightarrow> nat" where
  "op_value AND = 8743"
| "op_value OR = 8744"
| "op_value NOT = 172"
| "op_value IMPLIES = 8594"
| "op_value IFF = 8596"

text \<open>
  The two dataclasses \<^verbatim>\<open>Atom(subject, relation, objects)\<close> and
  \<^verbatim>\<open>LogicalExpression(operator, operands)\<close>, whose \<^verbatim>\<open>__eq__\<close> is structural
  and never equates an atom with a compound. The operator is optional and the operand
  list has any length, as in the source.
\<close>

datatype expr =
    Atom (subject: ustring) (relation: ustring) (objects: "ustring list")
  | LogicalExpression (operator: "LogicalOperator option") (operands: "expr list")

text \<open>
  Exceptions as values. The first seven are the \<^verbatim>\<open>ValueError\<close>s the parser raises,
  one constructor for each message; \<open>IndexError\<close> is what \<^verbatim>\<open>operands[0]\<close> and
  \<^verbatim>\<open>operands[1]\<close> raise on a list that is too short.
\<close>

datatype error =
    EmptyExpression
  | UnexpectedCharacter nat nat
  | UnexpectedToken ustring
  | UnexpectedEnd
  | InvalidAtomFormat ustring
  | SubjectParens ustring
  | ObjectParens ustring
  | IndexError

definition index :: "'a list \<Rightarrow> nat \<Rightarrow> error + 'a" where
  "index xs i = (if i < length xs then Inr (xs ! i) else Inl IndexError)"

fun sequence :: "(error + 'a) list \<Rightarrow> error + 'a list" where
  "sequence [] = Inr []"
| "sequence (x # xs) =
     (case x of Inl e \<Rightarrow> Inl e
      | Inr v \<Rightarrow> (case sequence xs of Inl e \<Rightarrow> Inl e | Inr vs \<Rightarrow> Inr (v # vs)))"

subsection \<open>Rendering: \<^verbatim>\<open>__str__\<close>\<close>

definition str_atom :: "ustring \<Rightarrow> ustring \<Rightarrow> ustring list \<Rightarrow> ustring" where
  "str_atom s r objs =
     (if objs = [] then [lparen] @ s @ [rparen] @ r @ [lparen, rparen]
      else [lparen] @ s @ [rparen] @ r @ [lparen] @ join [comma, space] objs @ [rparen])"

fun str_expr :: "expr \<Rightarrow> error + ustring" where
  "str_expr (Atom s r objs) = Inr (str_atom s r objs)"
| "str_expr (LogicalExpression opr ops) =
     (case opr of
        None \<Rightarrow> (case ops of [] \<Rightarrow> Inr [] | x # _ \<Rightarrow> str_expr x)
      | Some oper \<Rightarrow>
          if oper = NOT then
            (case ops of [] \<Rightarrow> Inl IndexError
             | x # _ \<Rightarrow> (case str_expr x of Inl e \<Rightarrow> Inl e | Inr t \<Rightarrow> Inr (op_value NOT # t)))
          else
            (case sequence (map str_expr ops) of Inl e \<Rightarrow> Inl e
             | Inr operand_strs \<Rightarrow>
                 Inr ([lparen] @ join ([space, op_value oper, space]) operand_strs @ [rparen])))"

section \<open>The parser (logic\_parser.py)\<close>

subsection \<open>The atom pattern\<close>

text \<open>
  \<^verbatim>\<open>re.match(r'\(([^)]+)\)([A-Za-z_][A-Za-z0-9_]*)\(([^)]*)\)', s)\<close>: the match is anchored
  at the start of \<open>s\<close>. Each starred class is followed by a character outside the class,
  so the greedy match is the only one: the longest run of characters other than \<open>)\<close>,
  the longest run of identifier characters, again the longest run of characters other than
  \<open>)\<close>. The result is the matched text and the three groups.
\<close>

definition ident_start :: "nat \<Rightarrow> bool" where
  "ident_start c \<longleftrightarrow> (65 \<le> c \<and> c \<le> 90) \<or> (97 \<le> c \<and> c \<le> 122) \<or> c = 95"

definition ident_char :: "nat \<Rightarrow> bool" where
  "ident_char c \<longleftrightarrow> ident_start c \<or> (48 \<le> c \<and> c \<le> 57)"

definition not_rparen :: "nat \<Rightarrow> bool" where
  "not_rparen c \<longleftrightarrow> c \<noteq> rparen"

definition atom_regex :: "ustring \<Rightarrow> (ustring \<times> ustring \<times> ustring \<times> ustring) option" where
  "atom_regex s =
     (case s of [] \<Rightarrow> None
      | c # r0 \<Rightarrow>
          if c \<noteq> lparen then None
          else let g1 = takeWhile not_rparen r0 in
            if g1 = [] then None
            else (case dropWhile not_rparen r0 of [] \<Rightarrow> None
              | _ # r2 \<Rightarrow>
                  let g2 = takeWhile ident_char r2 in
                  (case g2 of [] \<Rightarrow> None
                   | h # _ \<Rightarrow>
                       if \<not> ident_start h then None
                       else (case dropWhile ident_char r2 of [] \<Rightarrow> None
                         | d # r4 \<Rightarrow>
                             if d \<noteq> lparen then None
                             else let g3 = takeWhile not_rparen r4 in
                               (case dropWhile not_rparen r4 of [] \<Rightarrow> None
                                | _ # r6 \<Rightarrow>
                                    Some (take (length s - length r6) s, g1, g2, g3))))))"

lemma atom_regex_nonempty: "atom_regex s = Some m \<Longrightarrow> 0 < length (fst m)"
proof -
  assume a: "atom_regex s = Some m"
  have len: "length (dropWhile P xs) \<le> length xs" for P and xs :: "nat list"
    by (simp add: length_dropWhile_le)
  from a show ?thesis
  proof (cases s)
    case Nil
    with a show ?thesis by (simp add: atom_regex_def)
  next
    case (Cons c r0)
    from a Cons obtain r2 r4 r6 x y z where
      d1: "dropWhile not_rparen r0 = x # r2" and
      d2: "dropWhile ident_char r2 = y # r4" and
      d3: "dropWhile not_rparen r4 = z # r6" and
      m: "fst m = take (length s - length r6) s"
      by (auto simp: atom_regex_def Let_def split: if_splits list.splits)
    have "length r6 < length r4" using len[of not_rparen r4] d3 by simp
    moreover have "length r4 < length r2" using len[of ident_char r2] d2 by simp
    moreover have "length r2 < length r0" using len[of not_rparen r0] d1 by simp
    ultimately have "length r6 < length s" using Cons by simp
    with m show ?thesis by simp
  qed
qed

subsection \<open>The tokenizer\<close>

definition two_char_ops :: "ustring list" where
  "two_char_ops = [[8594], [8596], ustr ''->'', ustr ''=>'', ustr ''<->'', ustr ''<=>'']"

definition normalize_two :: "ustring \<Rightarrow> ustring" where
  "normalize_two two_char =
     (if two_char = ustr ''->'' then [8594]
      else if two_char = ustr ''=>'' then [8594]
      else if two_char = ustr ''<->'' then [8596]
      else if two_char = ustr ''<=>'' then [8596]
      else two_char)"

definition single_ops :: "nat list" where
  "single_ops = [8743, 8744, 172, 8594, 8596, 38, 124, 126, 33, 94, 118]"

definition normalize_one :: "nat \<Rightarrow> ustring" where
  "normalize_one c =
     (if c = 38 \<or> c = 94 then [8743]
      else if c = 124 \<or> c = 118 then [8744]
      else if c = 126 \<or> c = 33 then [172]
      else [c])"

function tokenize_loop :: "ustring \<Rightarrow> nat \<Rightarrow> ustring list \<Rightarrow> error + ustring list" where
  "tokenize_loop text i tokens =
     (if i < length text then
        if isspace (text ! i) then tokenize_loop text (i + 1) tokens
        else (case atom_regex (drop i text) of
            Some m \<Rightarrow> tokenize_loop text (i + length (fst m)) (tokens @ [fst m])
          | None \<Rightarrow>
              if i + 1 < length text \<and> take 2 (drop i text) \<in> set two_char_ops then
                tokenize_loop text (i + 2) (tokens @ [normalize_two (take 2 (drop i text))])
              else if text ! i \<in> set single_ops then
                tokenize_loop text (i + 1) (tokens @ [normalize_one (text ! i)])
              else Inl (UnexpectedCharacter (text ! i) i))
      else Inr tokens)"
  by pat_completeness auto
termination
proof (relation "measure (\<lambda>(text, i, tokens). length text - i)")
  fix s :: ustring and i :: nat and tokens :: "ustring list" and m
  assume "i < length s" and "atom_regex (drop i s) = Some m"
  then show "((s, i + length (fst m), tokens @ [fst m]), (s, i, tokens))
      \<in> measure (\<lambda>(text, i, tokens). length text - i)"
    using atom_regex_nonempty[of "drop i s" m] by (simp del: length_greater_0_conv)
qed auto

declare tokenize_loop.simps [simp del]

definition tokenize :: "ustring \<Rightarrow> error + ustring list" where
  "tokenize text = tokenize_loop text 0 []"

subsection \<open>Recursive descent over the token list\<close>

text \<open>
  The parser object holds \<^verbatim>\<open>self.tokens\<close> and \<^verbatim>\<open>self.position\<close>; each method is a
  function of the tokens and the position that returns the parsed expression with the new
  position, or the exception.
\<close>

definition has_paren :: "ustring \<Rightarrow> bool" where
  "has_paren t \<longleftrightarrow> lparen \<in> set t \<or> rparen \<in> set t"

definition parse_atom :: "ustring list \<Rightarrow> nat \<Rightarrow> error + (expr \<times> nat)" where
  "parse_atom tokens position =
     (if position \<ge> length tokens then Inl UnexpectedEnd
      else let token = tokens ! position in
        (case atom_regex token of
           None \<Rightarrow> Inl (InvalidAtomFormat token)
         | Some (g0, g1, g2, g3) \<Rightarrow>
             let subj = strip g1; rel = strip g2; objects_str = strip g3 in
             if has_paren subj then Inl (SubjectParens subj)
             else if objects_str \<noteq> [] then
               (let objs = map strip (split comma objects_str) in
                case filter has_paren objs of
                  obj # _ \<Rightarrow> Inl (ObjectParens obj)
                | [] \<Rightarrow> Inr (Atom subj rel objs, position + 1))
             else Inr (Atom subj rel [], position + 1)))"

function parse_not :: "ustring list \<Rightarrow> nat \<Rightarrow> error + (expr \<times> nat)" where
  "parse_not tokens position =
     (if position < length tokens \<and> tokens ! position = [op_value NOT] then
        (case parse_not tokens (position + 1) of
           Inl e \<Rightarrow> Inl e
         | Inr (operand, p) \<Rightarrow> Inr (LogicalExpression (Some NOT) [operand], p))
      else parse_atom tokens position)"
  by pat_completeness auto
termination
  by (relation "measure (\<lambda>(tokens, position). length tokens - position)") auto

declare parse_not.simps [simp del]

lemma parse_atom_position:
  "parse_atom tokens p = Inr (x, q) \<Longrightarrow> p < q \<and> q \<le> length tokens"
  by (auto simp: parse_atom_def Let_def split: if_splits option.splits list.splits prod.splits)

lemma parse_not_position:
  "parse_not tokens p = Inr (x, q) \<Longrightarrow> p < q \<and> q \<le> length tokens"
proof (induction tokens p arbitrary: x q rule: parse_not.induct)
  case (1 tokens position)
  show ?case
  proof (cases "position < length tokens \<and> tokens ! position = [op_value NOT]")
    case True
    with "1.prems" obtain operand where
      r: "parse_not tokens (position + 1) = Inr (operand, q)"
      by (subst (asm) parse_not.simps) (auto split: sum.splits)
    from "1.IH"[OF True r] show ?thesis by simp
  next
    case False
    with "1.prems" have "parse_atom tokens position = Inr (x, q)"
      by (subst (asm) parse_not.simps) (auto split: if_splits)
    then show ?thesis by (rule parse_atom_position)
  qed
qed

function parse_and_loop ::
  "ustring list \<Rightarrow> nat \<Rightarrow> expr list \<Rightarrow> error + (expr list \<times> nat)" where
  "parse_and_loop tokens position opnds =
     (if position < length tokens \<and> tokens ! position = [op_value AND] then
        (case parse_not tokens (position + 1) of
           Inl e \<Rightarrow> Inl e
         | Inr (x, p) \<Rightarrow> parse_and_loop tokens p (opnds @ [x]))
      else Inr (opnds, position))"
  by pat_completeness auto
termination
proof (relation "measure (\<lambda>(tokens, position, opnds). length tokens - position)")
  fix tokens :: "ustring list" and position :: nat and x2 :: "expr \<times> nat" and x p
    and opnds :: "expr list"
  assume "position < length tokens \<and> tokens ! position = [op_value AND]"
    and "parse_not tokens (position + 1) = Inr x2" and "(x, p) = x2"
  then show "((tokens, p, opnds @ [x]), (tokens, position, opnds))
      \<in> measure (\<lambda>(tokens, position, opnds). length tokens - position)"
    using parse_not_position[of tokens "position + 1" x p] by auto
qed auto

declare parse_and_loop.simps [simp del]

definition parse_and :: "ustring list \<Rightarrow> nat \<Rightarrow> error + (expr \<times> nat)" where
  "parse_and tokens position =
     (case parse_not tokens position of
        Inl e \<Rightarrow> Inl e
      | Inr (left, p) \<Rightarrow>
          (case parse_and_loop tokens p [left] of
             Inl e \<Rightarrow> Inl e
           | Inr (opnds, p') \<Rightarrow>
               if length opnds = 1 then Inr (opnds ! 0, p')
               else Inr (LogicalExpression (Some AND) opnds, p')))"

lemma parse_and_loop_position:
  "parse_and_loop tokens p ops = Inr (xs, q) \<Longrightarrow> p \<le> q \<and> q \<le> max p (length tokens)"
proof (induction tokens p ops arbitrary: xs q rule: parse_and_loop.induct)
  case (1 tokens position opnds)
  show ?case
  proof (cases "position < length tokens \<and> tokens ! position = [op_value AND]")
    case True
    with "1.prems" obtain x p where
      n: "parse_not tokens (position + 1) = Inr (x, p)" and
      r: "parse_and_loop tokens p (opnds @ [x]) = Inr (xs, q)"
      by (subst (asm) parse_and_loop.simps) (auto split: sum.splits)
    from parse_not_position[OF n] "1.IH"[OF True n refl r] show ?thesis by auto
  next
    case False
    with "1.prems" show ?thesis
      by (subst (asm) parse_and_loop.simps) (auto split: if_splits)
  qed
qed

lemma parse_and_position:
  "parse_and tokens p = Inr (x, q) \<Longrightarrow> p < q \<and> q \<le> length tokens"
  by (auto simp: parse_and_def split: sum.splits if_splits
      dest!: parse_not_position parse_and_loop_position)

function parse_or_loop ::
  "ustring list \<Rightarrow> nat \<Rightarrow> expr list \<Rightarrow> error + (expr list \<times> nat)" where
  "parse_or_loop tokens position opnds =
     (if position < length tokens \<and> tokens ! position = [op_value OR] then
        (case parse_and tokens (position + 1) of
           Inl e \<Rightarrow> Inl e
         | Inr (x, p) \<Rightarrow> parse_or_loop tokens p (opnds @ [x]))
      else Inr (opnds, position))"
  by pat_completeness auto
termination
proof (relation "measure (\<lambda>(tokens, position, opnds). length tokens - position)")
  fix tokens :: "ustring list" and position :: nat and x2 :: "expr \<times> nat" and x p
    and opnds :: "expr list"
  assume "position < length tokens \<and> tokens ! position = [op_value OR]"
    and "parse_and tokens (position + 1) = Inr x2" and "(x, p) = x2"
  then show "((tokens, p, opnds @ [x]), (tokens, position, opnds))
      \<in> measure (\<lambda>(tokens, position, opnds). length tokens - position)"
    using parse_and_position[of tokens "position + 1" x p] by auto
qed auto

declare parse_or_loop.simps [simp del]

definition parse_or :: "ustring list \<Rightarrow> nat \<Rightarrow> error + (expr \<times> nat)" where
  "parse_or tokens position =
     (case parse_and tokens position of
        Inl e \<Rightarrow> Inl e
      | Inr (left, p) \<Rightarrow>
          (case parse_or_loop tokens p [left] of
             Inl e \<Rightarrow> Inl e
           | Inr (opnds, p') \<Rightarrow>
               if length opnds = 1 then Inr (opnds ! 0, p')
               else Inr (LogicalExpression (Some OR) opnds, p')))"

lemma parse_or_loop_position:
  "parse_or_loop tokens p ops = Inr (xs, q) \<Longrightarrow> p \<le> q \<and> q \<le> max p (length tokens)"
proof (induction tokens p ops arbitrary: xs q rule: parse_or_loop.induct)
  case (1 tokens position opnds)
  show ?case
  proof (cases "position < length tokens \<and> tokens ! position = [op_value OR]")
    case True
    with "1.prems" obtain x p where
      n: "parse_and tokens (position + 1) = Inr (x, p)" and
      r: "parse_or_loop tokens p (opnds @ [x]) = Inr (xs, q)"
      by (subst (asm) parse_or_loop.simps) (auto split: sum.splits)
    from parse_and_position[OF n] "1.IH"[OF True n refl r] show ?thesis by auto
  next
    case False
    with "1.prems" show ?thesis
      by (subst (asm) parse_or_loop.simps) (auto split: if_splits)
  qed
qed

lemma parse_or_position:
  "parse_or tokens p = Inr (x, q) \<Longrightarrow> p < q \<and> q \<le> length tokens"
  by (auto simp: parse_or_def split: sum.splits if_splits
      dest!: parse_and_position parse_or_loop_position)

function parse_implies_loop ::
  "ustring list \<Rightarrow> nat \<Rightarrow> expr \<Rightarrow> error + (expr \<times> nat)" where
  "parse_implies_loop tokens position left =
     (if position < length tokens \<and> tokens ! position = [op_value IMPLIES] then
        (case parse_or tokens (position + 1) of
           Inl e \<Rightarrow> Inl e
         | Inr (right, p) \<Rightarrow>
             parse_implies_loop tokens p (LogicalExpression (Some IMPLIES) [left, right]))
      else Inr (left, position))"
  by pat_completeness auto
termination
proof (relation "measure (\<lambda>(tokens, position, left). length tokens - position)")
  fix tokens :: "ustring list" and position :: nat and x2 :: "expr \<times> nat" and x p
    and left :: expr
  assume "position < length tokens \<and> tokens ! position = [op_value IMPLIES]"
    and "parse_or tokens (position + 1) = Inr x2" and "(x, p) = x2"
  then show "((tokens, p, LogicalExpression (Some IMPLIES) [left, x]), (tokens, position, left))
      \<in> measure (\<lambda>(tokens, position, left). length tokens - position)"
    using parse_or_position[of tokens "position + 1" x p] by auto
qed auto

declare parse_implies_loop.simps [simp del]

definition parse_implies :: "ustring list \<Rightarrow> nat \<Rightarrow> error + (expr \<times> nat)" where
  "parse_implies tokens position =
     (case parse_or tokens position of
        Inl e \<Rightarrow> Inl e
      | Inr (left, p) \<Rightarrow> parse_implies_loop tokens p left)"

lemma parse_implies_loop_position:
  "parse_implies_loop tokens p l = Inr (x, q) \<Longrightarrow> p \<le> q \<and> q \<le> max p (length tokens)"
proof (induction tokens p l arbitrary: x q rule: parse_implies_loop.induct)
  case (1 tokens position left)
  show ?case
  proof (cases "position < length tokens \<and> tokens ! position = [op_value IMPLIES]")
    case True
    with "1.prems" obtain y p where
      n: "parse_or tokens (position + 1) = Inr (y, p)" and
      r: "parse_implies_loop tokens p (LogicalExpression (Some IMPLIES) [left, y]) = Inr (x, q)"
      by (subst (asm) parse_implies_loop.simps) (auto split: sum.splits)
    from parse_or_position[OF n] "1.IH"[OF True n refl r] show ?thesis by auto
  next
    case False
    with "1.prems" show ?thesis
      by (subst (asm) parse_implies_loop.simps) (auto split: if_splits)
  qed
qed

lemma parse_implies_position:
  "parse_implies tokens p = Inr (x, q) \<Longrightarrow> p < q \<and> q \<le> length tokens"
  by (auto simp: parse_implies_def split: sum.splits
      dest!: parse_or_position parse_implies_loop_position)

function parse_iff_loop ::
  "ustring list \<Rightarrow> nat \<Rightarrow> expr \<Rightarrow> error + (expr \<times> nat)" where
  "parse_iff_loop tokens position left =
     (if position < length tokens \<and> tokens ! position = [op_value IFF] then
        (case parse_implies tokens (position + 1) of
           Inl e \<Rightarrow> Inl e
         | Inr (right, p) \<Rightarrow>
             parse_iff_loop tokens p (LogicalExpression (Some IFF) [left, right]))
      else Inr (left, position))"
  by pat_completeness auto
termination
proof (relation "measure (\<lambda>(tokens, position, left). length tokens - position)")
  fix tokens :: "ustring list" and position :: nat and x2 :: "expr \<times> nat" and x p
    and left :: expr
  assume "position < length tokens \<and> tokens ! position = [op_value IFF]"
    and "parse_implies tokens (position + 1) = Inr x2" and "(x, p) = x2"
  then show "((tokens, p, LogicalExpression (Some IFF) [left, x]), (tokens, position, left))
      \<in> measure (\<lambda>(tokens, position, left). length tokens - position)"
    using parse_implies_position[of tokens "position + 1" x p] by auto
qed auto

declare parse_iff_loop.simps [simp del]

definition parse_iff :: "ustring list \<Rightarrow> nat \<Rightarrow> error + (expr \<times> nat)" where
  "parse_iff tokens position =
     (case parse_implies tokens position of
        Inl e \<Rightarrow> Inl e
      | Inr (left, p) \<Rightarrow> parse_iff_loop tokens p left)"

text \<open>\<^verbatim>\<open>LogicParser.parse\<close>, which \<^verbatim>\<open>parse_expression\<close> calls on a fresh parser.\<close>

definition parse :: "ustring \<Rightarrow> error + expr" where
  "parse text =
     (case tokenize (strip text) of
        Inl e \<Rightarrow> Inl e
      | Inr tokens \<Rightarrow>
          if tokens = [] then Inl EmptyExpression
          else (case parse_iff tokens 0 of
              Inl e \<Rightarrow> Inl e
            | Inr (result, position) \<Rightarrow>
                if position < length tokens then Inl (UnexpectedToken (tokens ! position))
                else Inr result))"

definition parse_expression :: "ustring \<Rightarrow> error + expr" where
  "parse_expression text = parse text"

section \<open>Unification and substitution (Atom.matches, Atom.substitute)\<close>

type_synonym bindings = "ustring \<rightharpoonup> ustring"

text \<open>
  \<^verbatim>\<open>_is_variable\<close>: the term starts with X, Y or Z. The fourth disjunct of the source,
  \<^verbatim>\<open>re.match(r'^[XYZ]\d+$', term)\<close>, only holds of terms that start with one of the three
  letters, so it adds nothing.
\<close>

definition is_variable :: "ustring \<Rightarrow> bool" where
  "is_variable t = (case t of [] \<Rightarrow> False | c # _ \<Rightarrow> c = 88 \<or> c = 89 \<or> c = 90)"

definition match_term :: "ustring \<Rightarrow> ustring \<Rightarrow> bindings \<Rightarrow> bool \<times> bindings" where
  "match_term term1 term2 b =
     (let is_var1 = is_variable term1; is_var2 = is_variable term2 in
      if \<not> is_var1 \<and> \<not> is_var2 then (term1 = term2, b)
      else if is_var1 then
        (case b term1 of Some v \<Rightarrow> (v = term2, b) | None \<Rightarrow> (True, b(term1 \<mapsto> term2)))
      else if is_var2 then
        (case b term2 of Some v \<Rightarrow> (v = term1, b) | None \<Rightarrow> (True, b(term2 \<mapsto> term1)))
      else (False, b))"

text \<open>The loop over \<^verbatim>\<open>zip(self.objects, other.objects)\<close>.\<close>

fun match_objects :: "ustring list \<Rightarrow> ustring list \<Rightarrow> bindings \<Rightarrow> bool \<times> bindings" where
  "match_objects (obj1 # os1) (obj2 # os2) b =
     (case match_term obj1 obj2 b of
        (True, b') \<Rightarrow> match_objects os1 os2 b'
      | (False, _) \<Rightarrow> (False, Map.empty))"
| "match_objects _ _ b = (True, b)"

text \<open>
  \<^verbatim>\<open>Atom.matches(other, bindings)\<close>. Every caller tests that both sides are atoms first;
  the last equation is never reached from the modelled code.
\<close>

fun matches :: "expr \<Rightarrow> expr \<Rightarrow> bindings \<Rightarrow> bool \<times> bindings" where
  "matches (Atom s1 r1 os1) (Atom s2 r2 os2) b =
     (if r1 \<noteq> r2 then (False, Map.empty)
      else (case match_term s1 s2 b of
          (False, _) \<Rightarrow> (False, Map.empty)
        | (True, b1) \<Rightarrow>
            if length os1 \<noteq> length os2 then (False, Map.empty)
            else match_objects os1 os2 b1))"
| "matches _ _ b = (False, Map.empty)"

definition bindings_get :: "bindings \<Rightarrow> ustring \<Rightarrow> ustring \<Rightarrow> ustring" where
  "bindings_get b k d = (case b k of None \<Rightarrow> d | Some v \<Rightarrow> v)"

text \<open>\<^verbatim>\<open>ModusPonens._substitute\<close>, with \<^verbatim>\<open>Atom.substitute\<close> as its first equation.\<close>

fun substitute :: "expr \<Rightarrow> bindings \<Rightarrow> expr" where
  "substitute (Atom s r os) b =
     Atom (bindings_get b s s) r (map (\<lambda>obj. bindings_get b obj obj) os)"
| "substitute (LogicalExpression opr ops) b =
     LogicalExpression opr (map (\<lambda>x. substitute x b) ops)"

section \<open>Deduction rules (deduction\_rules.py)\<close>

text \<open>
  A Python \<^verbatim>\<open>set\<close> is modelled as a list without duplicates: membership is \<open>\<in> set\<close>,
  \<^verbatim>\<open>add\<close> is \<open>set_add\<close>, and the order of the list is the order in which a
  \<^verbatim>\<open>for\<close> loop or a comprehension enumerates the set.
\<close>

definition set_add :: "'a \<Rightarrow> 'a list \<Rightarrow> 'a list" where
  "set_add x xs = (if x \<in> set xs then xs else xs @ [x])"

fun is_Atom :: "expr \<Rightarrow> bool" where
  "is_Atom (Atom _ _ _) = True"
| "is_Atom (LogicalExpression _ _) = False"

text \<open>\<^verbatim>\<open>isinstance(item, LogicalExpression) and item.operator == oper\<close>\<close>

fun is_op :: "LogicalOperator \<Rightarrow> expr \<Rightarrow> bool" where
  "is_op oper (Atom _ _ _) = False"
| "is_op oper (LogicalExpression opr _) = (opr = Some oper)"

text \<open>
  A \<^verbatim>\<open>for\<close> loop whose body may raise: the state is threaded through the elements and
  the first exception ends the loop.
\<close>

fun for_each :: "('a \<Rightarrow> 's \<Rightarrow> error + 's) \<Rightarrow> 'a list \<Rightarrow> 's \<Rightarrow> error + 's" where
  "for_each body [] st = Inr st"
| "for_each body (x # xs) st =
     (case body x st of Inl e \<Rightarrow> Inl e | Inr st' \<Rightarrow> for_each body xs st')"

text \<open>An f-string: the parts are evaluated from left to right and concatenated.\<close>

definition fstring :: "(error + ustring) list \<Rightarrow> error + ustring" where
  "fstring parts = (case sequence parts of Inl e \<Rightarrow> Inl e | Inr ps \<Rightarrow> Inr (concat ps))"

text \<open>
  The state of one \<^verbatim>\<open>apply\<close>: the list \<^verbatim>\<open>derived\<close> and the set \<^verbatim>\<open>new_facts\<close> shared
  by the rules of a pass. Every rule ends its innermost loop with the same four lines,
  \<^verbatim>\<open>if new_fact not in knowledge_base and new_fact not in new_facts:
       justification = f"..."; derived.append((new_fact, justification)); new_facts.add(new_fact)\<close>,
  which is \<open>emit\<close>; the justification is only built when the fact is new.
\<close>

type_synonym acc = "(expr \<times> ustring) list \<times> expr list"

definition emit :: "expr list \<Rightarrow> expr \<Rightarrow> (error + ustring) \<Rightarrow> acc \<Rightarrow> error + acc" where
  "emit kb new_fact justification st =
     (case st of (derived, new_facts) \<Rightarrow>
        if new_fact \<notin> set kb \<and> new_fact \<notin> set new_facts then
          (case justification of
             Inl e \<Rightarrow> Inl e
           | Inr j \<Rightarrow> Inr (derived @ [(new_fact, j)], set_add new_fact new_facts))
        else Inr st)"

subsection \<open>Modus Ponens\<close>

fun mp_match :: "expr \<Rightarrow> expr \<Rightarrow> bool" where
  "mp_match (Atom s1 r1 os1) (Atom s2 r2 os2) =
     fst (matches (Atom s1 r1 os1) (Atom s2 r2 os2) Map.empty)"
| "mp_match expr1 expr2 = (expr1 = expr2)"

definition mp_justification :: "expr \<Rightarrow> expr \<Rightarrow> expr \<Rightarrow> error + ustring" where
  "mp_justification fct impl new_fact =
     fstring [Inr (ustr ''Modus Ponens: ''), str_expr fct, Inr ([space, 8743, space, lparen]),
              str_expr impl, Inr ([rparen, space, 8866, space]), str_expr new_fact]"

definition mp_fact :: "expr list \<Rightarrow> expr \<Rightarrow> expr \<Rightarrow> expr \<Rightarrow> expr \<Rightarrow> acc \<Rightarrow> error + acc" where
  "mp_fact kb impl antecedent consequent fct st =
     (if mp_match antecedent fct then
        if is_Atom antecedent \<and> is_Atom fct then
          (case matches antecedent fct Map.empty of
             (True, b) \<Rightarrow>
               (let new_fact = substitute consequent b in
                emit kb new_fact (mp_justification fct impl new_fact) st)
           | (False, _) \<Rightarrow> Inr st)
        else if antecedent = fct then
          emit kb consequent (mp_justification fct impl consequent) st
        else Inr st
      else Inr st)"

definition modus_ponens :: "expr list \<Rightarrow> expr list \<Rightarrow> error + acc" where
  "modus_ponens kb new_facts =
     (let implications = filter (is_op IMPLIES) kb;
          facts = filter (\<lambda>item. is_Atom item \<or> \<not> is_op IMPLIES item) kb in
      for_each (\<lambda>impl st.
          case index (operands impl) 0 of Inl e \<Rightarrow> Inl e | Inr antecedent \<Rightarrow>
          case index (operands impl) 1 of Inl e \<Rightarrow> Inl e | Inr consequent \<Rightarrow>
            for_each (mp_fact kb impl antecedent consequent) facts st)
        implications ([], new_facts))"

subsection \<open>Modus Tollens\<close>

definition mt_justification :: "expr \<Rightarrow> expr \<Rightarrow> expr \<Rightarrow> error + ustring" where
  "mt_justification ng impl new_fact =
     fstring [Inr (ustr ''Modus Tollens: ''), str_expr ng, Inr ([space, 8743, space, lparen]),
              str_expr impl, Inr ([rparen, space, 8866, space]), str_expr new_fact]"

definition mt_neg :: "expr list \<Rightarrow> expr \<Rightarrow> expr \<Rightarrow> expr \<Rightarrow> expr \<Rightarrow> acc \<Rightarrow> error + acc" where
  "mt_neg kb impl antecedent consequent ng st =
     (case index (operands ng) 0 of Inl e \<Rightarrow> Inl e | Inr negated_expr \<Rightarrow>
        if mp_match consequent negated_expr then
          (let new_fact = LogicalExpression (Some NOT) [antecedent] in
           emit kb new_fact (mt_justification ng impl new_fact) st)
        else Inr st)"

definition modus_tollens :: "expr list \<Rightarrow> expr list \<Rightarrow> error + acc" where
  "modus_tollens kb new_facts =
     (let implications = filter (is_op IMPLIES) kb;
          negations = filter (is_op NOT) kb in
      for_each (\<lambda>impl st.
          case index (operands impl) 0 of Inl e \<Rightarrow> Inl e | Inr antecedent \<Rightarrow>
          case index (operands impl) 1 of Inl e \<Rightarrow> Inl e | Inr consequent \<Rightarrow>
            for_each (mt_neg kb impl antecedent consequent) negations st)
        implications ([], new_facts))"

subsection \<open>Hypothetical Syllogism\<close>

definition hs_justification :: "expr \<Rightarrow> expr \<Rightarrow> expr \<Rightarrow> error + ustring" where
  "hs_justification impl1 impl2 new_fact =
     fstring [Inr (ustr ''Hypothetical Syllogism: (''), str_expr impl1,
              Inr ([rparen, space, 8743, space, lparen]), str_expr impl2,
              Inr ([rparen, space, 8866, space]), str_expr new_fact]"

definition hs_pair :: "expr list \<Rightarrow> expr \<Rightarrow> expr \<Rightarrow> acc \<Rightarrow> error + acc" where
  "hs_pair kb impl1 impl2 st =
     (if impl1 = impl2 then Inr st
      else
        case index (operands impl1) 1 of Inl e \<Rightarrow> Inl e | Inr c1 \<Rightarrow>
        case index (operands impl2) 0 of Inl e \<Rightarrow> Inl e | Inr a2 \<Rightarrow>
          if c1 = a2 then
            (case index (operands impl1) 0 of Inl e \<Rightarrow> Inl e | Inr a1 \<Rightarrow>
             case index (operands impl2) 1 of Inl e \<Rightarrow> Inl e | Inr c2 \<Rightarrow>
               (let new_fact = LogicalExpression (Some IMPLIES) [a1, c2] in
                emit kb new_fact (hs_justification impl1 impl2 new_fact) st))
          else Inr st)"

definition hypothetical_syllogism :: "expr list \<Rightarrow> expr list \<Rightarrow> error + acc" where
  "hypothetical_syllogism kb new_facts =
     (let implications = filter (is_op IMPLIES) kb in
      for_each (\<lambda>impl1 st. for_each (hs_pair kb impl1) implications st)
        implications ([], new_facts))"

subsection \<open>Disjunctive Syllogism\<close>

definition ds_justification :: "expr \<Rightarrow> expr \<Rightarrow> expr \<Rightarrow> error + ustring" where
  "ds_justification dsj ng other =
     fstring [Inr (ustr ''Disjunctive Syllogism: (''), str_expr dsj,
              Inr ([rparen, space, 8743, space]), str_expr ng,
              Inr ([space, 8866, space]), str_expr other]"

definition ds_neg :: "expr list \<Rightarrow> expr \<Rightarrow> expr \<Rightarrow> acc \<Rightarrow> error + acc" where
  "ds_neg kb dsj ng st =
     (case index (operands ng) 0 of Inl e \<Rightarrow> Inl e | Inr negated_expr \<Rightarrow>
        for_each (\<lambda>(i, operand) st.
            if operand = negated_expr then
              for_each (\<lambda>(j, other) st.
                  if i \<noteq> j then emit kb other (ds_justification dsj ng other) st
                  else Inr st)
                (List.enumerate 0 (operands dsj)) st
            else Inr st)
          (List.enumerate 0 (operands dsj)) st)"

definition disjunctive_syllogism :: "expr list \<Rightarrow> expr list \<Rightarrow> error + acc" where
  "disjunctive_syllogism kb new_facts =
     (let disjunctions = filter (is_op OR) kb;
          negations = filter (is_op NOT) kb in
      for_each (\<lambda>dsj st. for_each (ds_neg kb dsj) negations st)
        disjunctions ([], new_facts))"

subsection \<open>Simplification\<close>

definition simp_justification :: "expr \<Rightarrow> expr \<Rightarrow> error + ustring" where
  "simp_justification cnj operand =
     fstring [Inr (ustr ''Simplification: (''), str_expr cnj,
              Inr ([rparen, space, 8866, space]), str_expr operand]"

definition simplification :: "expr list \<Rightarrow> expr list \<Rightarrow> error + acc" where
  "simplification kb new_facts =
     (let conjunctions = filter (is_op AND) kb in
      for_each (\<lambda>cnj st.
          for_each (\<lambda>operand st. emit kb operand (simp_justification cnj operand) st)
            (operands cnj) st)
        conjunctions ([], new_facts))"

subsection \<open>Conjunction\<close>

definition conj_justification :: "expr \<Rightarrow> expr \<Rightarrow> expr \<Rightarrow> error + ustring" where
  "conj_justification fact1 fact2 new_fact =
     fstring [Inr (ustr ''Conjunction: ''), str_expr fact1, Inr ([space, 8743, space]),
              str_expr fact2, Inr ([space, 8866, space]), str_expr new_fact]"

definition conjunction :: "expr list \<Rightarrow> expr list \<Rightarrow> error + acc" where
  "conjunction kb new_facts =
     (let facts = filter is_Atom kb in
      if length facts > 20 then Inr ([], new_facts)
      else
        for_each (\<lambda>(i, fact1) st.
            for_each (\<lambda>fact2 st.
                (let new_fact = LogicalExpression (Some AND) [fact1, fact2] in
                 emit kb new_fact (conj_justification fact1 fact2 new_fact) st))
              (drop (i + 1) facts) st)
          (List.enumerate 0 facts) ([], new_facts))"

subsection \<open>Addition\<close>

definition addition :: "expr list \<Rightarrow> expr list \<Rightarrow> error + acc" where
  "addition kb new_facts = Inr ([], new_facts)"

subsection \<open>Resolution\<close>

definition are_complementary :: "expr \<Rightarrow> expr \<Rightarrow> error + bool" where
  "are_complementary expr1 expr2 =
     (if is_op NOT expr1 then
        (case index (operands expr1) 0 of Inl e \<Rightarrow> Inl e | Inr x \<Rightarrow> Inr (x = expr2))
      else if is_op NOT expr2 then
        (case index (operands expr2) 0 of Inl e \<Rightarrow> Inl e | Inr x \<Rightarrow> Inr (x = expr1))
      else Inr False)"

definition res_justification :: "expr \<Rightarrow> expr \<Rightarrow> expr \<Rightarrow> error + ustring" where
  "res_justification disj1 disj2 new_fact =
     fstring [Inr (ustr ''Resolution: (''), str_expr disj1,
              Inr ([rparen, space, 8743, space, lparen]), str_expr disj2,
              Inr ([rparen, space, 8866, space]), str_expr new_fact]"

definition res_literals :: "expr list \<Rightarrow> expr \<Rightarrow> expr \<Rightarrow> expr \<Rightarrow> expr \<Rightarrow> acc \<Rightarrow> error + acc" where
  "res_literals kb disj1 disj2 op1 op2 st =
     (case are_complementary op1 op2 of
        Inl e \<Rightarrow> Inl e
      | Inr False \<Rightarrow> Inr st
      | Inr True \<Rightarrow>
          (let remaining1 = filter (\<lambda>x. x \<noteq> op1) (operands disj1);
               remaining2 = filter (\<lambda>x. x \<noteq> op2) (operands disj2) in
           if remaining1 = [] \<and> remaining2 = [] then Inr st
           else
             (let all_remaining = remaining1 @ remaining2;
                  new_fact = (if length all_remaining = 1 then all_remaining ! 0
                              else LogicalExpression (Some OR) all_remaining) in
              emit kb new_fact (res_justification disj1 disj2 new_fact) st)))"

definition res_pair :: "expr list \<Rightarrow> expr \<Rightarrow> expr \<Rightarrow> acc \<Rightarrow> error + acc" where
  "res_pair kb disj1 disj2 st =
     (if disj1 = disj2 then Inr st
      else
        for_each (\<lambda>op1 st. for_each (res_literals kb disj1 disj2 op1) (operands disj2) st)
          (operands disj1) st)"

definition resolution :: "expr list \<Rightarrow> expr list \<Rightarrow> error + acc" where
  "resolution kb new_facts =
     (let disjunctions = filter (is_op OR) kb in
      for_each (\<lambda>disj1 st. for_each (res_pair kb disj1) disjunctions st)
        disjunctions ([], new_facts))"

subsection \<open>Biconditional Elimination\<close>

definition be_justification :: "expr \<Rightarrow> expr \<Rightarrow> error + ustring" where
  "be_justification bic impl =
     fstring [Inr (ustr ''Biconditional Elimination: (''), str_expr bic,
              Inr ([rparen, space, 8866, space]), str_expr impl]"

definition be_iff :: "expr list \<Rightarrow> expr \<Rightarrow> acc \<Rightarrow> error + acc" where
  "be_iff kb bic st =
     (case index (operands bic) 0 of Inl e \<Rightarrow> Inl e | Inr left \<Rightarrow>
      case index (operands bic) 1 of Inl e \<Rightarrow> Inl e | Inr right \<Rightarrow>
        (let impl1 = LogicalExpression (Some IMPLIES) [left, right] in
         case emit kb impl1 (be_justification bic impl1) st of
           Inl e \<Rightarrow> Inl e
         | Inr st1 \<Rightarrow>
             (let impl2 = LogicalExpression (Some IMPLIES) [right, left] in
              emit kb impl2 (be_justification bic impl2) st1)))"

definition biconditional_elimination :: "expr list \<Rightarrow> expr list \<Rightarrow> error + acc" where
  "biconditional_elimination kb new_facts =
     (let biconditionals = filter (is_op IFF) kb in
      for_each (be_iff kb) biconditionals ([], new_facts))"

subsection \<open>RuleManager\<close>

datatype rule =
    ModusPonens | ModusTollens | HypotheticalSyllogism | DisjunctiveSyllogism
  | Simplification | Conjunction | Addition | Resolution | BiconditionalElimination

fun priority :: "rule \<Rightarrow> int" where
  "priority ModusPonens = 10"
| "priority ModusTollens = 9"
| "priority HypotheticalSyllogism = 7"
| "priority DisjunctiveSyllogism = 8"
| "priority Simplification = 10"
| "priority Conjunction = 3"
| "priority Addition = 1"
| "priority Resolution = 6"
| "priority BiconditionalElimination = 9"

text \<open>\<^verbatim>\<open>rule.apply(knowledge_base, new_facts)\<close>: the derived list and the updated set.\<close>

fun rule_apply :: "rule \<Rightarrow> expr list \<Rightarrow> expr list \<Rightarrow> error + acc" where
  "rule_apply ModusPonens kb nf = modus_ponens kb nf"
| "rule_apply ModusTollens kb nf = modus_tollens kb nf"
| "rule_apply HypotheticalSyllogism kb nf = hypothetical_syllogism kb nf"
| "rule_apply DisjunctiveSyllogism kb nf = disjunctive_syllogism kb nf"
| "rule_apply Simplification kb nf = simplification kb nf"
| "rule_apply Conjunction kb nf = conjunction kb nf"
| "rule_apply Addition kb nf = addition kb nf"
| "rule_apply Resolution kb nf = resolution kb nf"
| "rule_apply BiconditionalElimination kb nf = biconditional_elimination kb nf"

text \<open>
  \<^verbatim>\<open>RuleManager.__init__\<close>: the rule list, sorted by descending priority. Python's sort
  is stable, also with \<^verbatim>\<open>reverse=True\<close>, and so is \<open>sort_key\<close>.
\<close>

definition rule_manager_init :: "bool \<Rightarrow> rule list" where
  "rule_manager_init enable_conjunction =
     sort_key (\<lambda>r. - priority r)
       ([ModusPonens, ModusTollens, HypotheticalSyllogism, DisjunctiveSyllogism,
         Simplification, Resolution, BiconditionalElimination]
        @ (if enable_conjunction then [Conjunction] else []))"

text \<open>
  \<^verbatim>\<open>apply_all_rules\<close>: the loop over \<^verbatim>\<open>self.rules\<close> with the lists
  \<^verbatim>\<open>all_derived\<close> and the set \<^verbatim>\<open>new_facts\<close>.
\<close>

fun apply_rules_loop ::
  "rule list \<Rightarrow> expr list \<Rightarrow> acc \<Rightarrow> error + acc" where
  "apply_rules_loop [] kb st = Inr st"
| "apply_rules_loop (r # rs) kb (all_derived, new_facts) =
     (case rule_apply r kb new_facts of
        Inl e \<Rightarrow> Inl e
      | Inr (derived, new_facts') \<Rightarrow> apply_rules_loop rs kb (all_derived @ derived, new_facts'))"

definition apply_all_rules :: "rule list \<Rightarrow> expr list \<Rightarrow> error + (expr \<times> ustring) list" where
  "apply_all_rules rules kb =
     (case apply_rules_loop rules kb ([], []) of
        Inl e \<Rightarrow> Inl e
      | Inr (all_derived, new_facts) \<Rightarrow> Inr all_derived)"

section \<open>The engine (logic\_engine.py)\<close>

record DerivationChain =
  conclusion :: expr
  justification :: ustring
  depth :: int
  chain_premises :: "expr list"

record InferenceResult =
  res_original_facts :: "expr set"
  res_original_rules :: "expr set"
  derived_facts :: "DerivationChain list"
  iterations :: int
  res_contradictions :: "ustring list"

text \<open>
  The attributes of \<^verbatim>\<open>LogicEngine\<close>. The knowledge base is the set the rules enumerate,
  a list without duplicates; \<^verbatim>\<open>original_facts\<close> and \<^verbatim>\<open>original_rules\<close> are only added
  to and copied, and are sets. \<open>rule_manager\<close> is the rule list of the engine's
  \<^verbatim>\<open>RuleManager\<close>.
\<close>

record LogicEngine =
  knowledge_base :: "expr list"
  original_facts :: "expr set"
  original_rules :: "expr set"
  derivation_chains :: "DerivationChain list"
  max_iterations :: int
  rule_manager :: "rule list"
  contradictions :: "ustring list"

definition init_engine :: "int \<Rightarrow> bool \<Rightarrow> LogicEngine" where
  "init_engine max_iter enable_conjunction =
     \<lparr>knowledge_base = [], original_facts = {}, original_rules = {}, derivation_chains = [],
      max_iterations = max_iter, rule_manager = rule_manager_init enable_conjunction,
      contradictions = []\<rparr>"

definition clear :: "LogicEngine \<Rightarrow> LogicEngine" where
  "clear s = s\<lparr>knowledge_base := [], original_facts := {}, original_rules := {},
               derivation_chains := [], contradictions := []\<rparr>"

text \<open>\<^verbatim>\<open>add_fact\<close> and \<^verbatim>\<open>add_rule\<close> on a parsed expression, and on a string.\<close>

definition add_fact :: "LogicEngine \<Rightarrow> expr \<Rightarrow> LogicEngine" where
  "add_fact s fct =
     s\<lparr>knowledge_base := set_add fct (knowledge_base s),
       original_facts := insert fct (original_facts s)\<rparr>"

definition add_fact_text :: "LogicEngine \<Rightarrow> ustring \<Rightarrow> error + LogicEngine" where
  "add_fact_text s txt =
     (case parse_expression txt of Inl e \<Rightarrow> Inl e | Inr fct \<Rightarrow> Inr (add_fact s fct))"

definition add_rule :: "LogicEngine \<Rightarrow> expr \<Rightarrow> LogicEngine" where
  "add_rule s rl =
     (let s1 = s\<lparr>knowledge_base := set_add rl (knowledge_base s)\<rparr> in
      if is_op IMPLIES rl \<or> is_op IFF rl then
        s1\<lparr>original_rules := insert rl (original_rules s1)\<rparr>
      else s1\<lparr>original_facts := insert rl (original_facts s1)\<rparr>)"

definition add_rule_text :: "LogicEngine \<Rightarrow> ustring \<Rightarrow> error + LogicEngine" where
  "add_rule_text s txt =
     (case parse_expression txt of Inl e \<Rightarrow> Inl e | Inr rl \<Rightarrow> Inr (add_rule s rl))"

definition query :: "LogicEngine \<Rightarrow> expr \<Rightarrow> bool" where
  "query s q \<longleftrightarrow> q \<in> set (knowledge_base s)"

subsection \<open>Contradiction detection\<close>

definition contradiction_text :: "expr \<Rightarrow> expr \<Rightarrow> error + ustring" where
  "contradiction_text negated_expr ng =
     fstring [Inr (ustr ''Contradiction: ''), str_expr negated_expr, Inr (ustr '' and ''),
              str_expr ng, Inr (ustr '' both present'')]"

definition detect_step :: "expr list \<Rightarrow> expr \<Rightarrow> ustring list \<Rightarrow> error + ustring list" where
  "detect_step atoms ng found =
     (case index (operands ng) 0 of Inl e \<Rightarrow> Inl e | Inr negated_expr \<Rightarrow>
        if negated_expr \<in> set atoms then
          (case contradiction_text negated_expr ng of
             Inl e \<Rightarrow> Inl e | Inr t \<Rightarrow> Inr (found @ [t]))
        else Inr found)"

definition detect_contradictions :: "LogicEngine \<Rightarrow> error + LogicEngine" where
  "detect_contradictions s =
     (let atoms = filter is_Atom (knowledge_base s);
          negations = filter (is_op NOT) (knowledge_base s) in
      case for_each (detect_step atoms) negations [] of
        Inl e \<Rightarrow> Inl e
      | Inr found \<Rightarrow> Inr (s\<lparr>contradictions := found\<rparr>))"

subsection \<open>Exhaustive inference\<close>

text \<open>
  The body of the \<^verbatim>\<open>for fact, justification in derived\<close> loop of \<^verbatim>\<open>infer_all\<close>.
\<close>

fun add_derived :: "LogicEngine \<Rightarrow> (expr \<times> ustring) list \<Rightarrow> int \<Rightarrow> LogicEngine" where
  "add_derived s [] iteration = s"
| "add_derived s ((fct, j) # rest) iteration =
     add_derived
       (s\<lparr>knowledge_base := set_add fct (knowledge_base s),
          derivation_chains := derivation_chains s @
            [\<lparr>conclusion = fct, justification = j, depth = iteration, chain_premises = []\<rparr>]\<rparr>)
       rest iteration"

lemma max_iterations_add_derived [simp]:
  "max_iterations (add_derived s derived i) = max_iterations s"
  by (induction s derived i rule: add_derived.induct) simp_all

text \<open>
  The \<^verbatim>\<open>while iteration < self.max_iterations\<close> loop. An exception of a rule leaves
  \<^verbatim>\<open>infer_all\<close>; the model returns it and no state.
\<close>

function infer_loop :: "LogicEngine \<Rightarrow> int \<Rightarrow> error + (LogicEngine \<times> int)" where
  "infer_loop s iteration =
     (if iteration < max_iterations s then
        (case apply_all_rules (rule_manager s) (knowledge_base s) of
           Inl e \<Rightarrow> Inl e
         | Inr derived \<Rightarrow>
             if derived = [] then Inr (s, iteration + 1)
             else infer_loop (add_derived s derived (iteration + 1)) (iteration + 1))
      else Inr (s, iteration))"
  by pat_completeness auto
termination
  by (relation "measure (\<lambda>(s, iteration). nat (max_iterations s - iteration))") auto

declare infer_loop.simps [simp del]

text \<open>\<^verbatim>\<open>infer_all\<close> with \<^verbatim>\<open>verbose=False\<close>: the new engine state and the result.\<close>

definition infer_all :: "LogicEngine \<Rightarrow> error + (LogicEngine \<times> InferenceResult)" where
  "infer_all s =
     (case infer_loop s 0 of
        Inl e \<Rightarrow> Inl e
      | Inr (s1, iteration) \<Rightarrow>
          (case detect_contradictions s1 of
             Inl e \<Rightarrow> Inl e
           | Inr s2 \<Rightarrow>
               Inr (s2, \<lparr>res_original_facts = original_facts s2,
                         res_original_rules = original_rules s2,
                         derived_facts = derivation_chains s2,
                         iterations = iteration,
                         res_contradictions = contradictions s2\<rparr>)))"

section \<open>Observers of a run and the specification's words\<close>

text \<open>
  The chain \<^verbatim>\<open>infer_all\<close> appends for a derived fact in iteration \<open>i\<close>.
\<close>

definition chain_of :: "int \<Rightarrow> expr \<times> ustring \<Rightarrow> DerivationChain" where
  "chain_of i d = \<lparr>conclusion = fst d, justification = snd d, depth = i, chain_premises = []\<rparr>"

text \<open>
  The passes of one \<^verbatim>\<open>infer_all\<close>: the same loop as \<open>infer_loop\<close>, recording for
  every call of \<^verbatim>\<open>apply_all_rules\<close> the knowledge base it was given (the knowledge base
  entering that iteration) and the list it returned. Entry \<open>k\<close> belongs to iteration
  \<open>k + 1\<close>.
\<close>

function infer_trace :: "LogicEngine \<Rightarrow> int \<Rightarrow> (expr list \<times> (expr \<times> ustring) list) list" where
  "infer_trace s iteration =
     (if iteration < max_iterations s then
        (case apply_all_rules (rule_manager s) (knowledge_base s) of
           Inl e \<Rightarrow> []
         | Inr derived \<Rightarrow>
             (knowledge_base s, derived) #
             (if derived = [] then []
              else infer_trace (add_derived s derived (iteration + 1)) (iteration + 1)))
      else [])"
  by pat_completeness auto
termination
  by (relation "measure (\<lambda>(s, iteration). nat (max_iterations s - iteration))") auto

declare infer_trace.simps [simp del]

text \<open>
  The specification's contradiction entries: the pairs of an atom of the knowledge base and
  a negation of the knowledge base whose operand is that atom, and the text of the entry
  that names the atom.
\<close>

fun negated :: "expr \<Rightarrow> expr option" where
  "negated (LogicalExpression (Some NOT) (x # _)) = Some x"
| "negated _ = None"

definition pairs_of :: "expr list \<Rightarrow> expr \<Rightarrow> (expr \<times> expr) list" where
  "pairs_of kb ng =
     (case negated ng of None \<Rightarrow> []
      | Some a \<Rightarrow> if is_Atom a \<and> a \<in> set kb then [(a, ng)] else [])"

definition contradictory_pairs :: "expr list \<Rightarrow> (expr \<times> expr) list" where
  "contradictory_pairs kb = concat (map (pairs_of kb) kb)"

definition contradiction_entry :: "expr \<Rightarrow> ustring" where
  "contradiction_entry a =
     ustr ''Contradiction: '' @ str_atom (subject a) (relation a) (objects a) @ ustr '' and '' @
     [172] @ str_atom (subject a) (relation a) (objects a) @ ustr '' both present''"

text \<open>
  Two invariants of the engine: every recorded chain's conclusion is in the knowledge base,
  and \<^verbatim>\<open>original_rules\<close> holds implications and biconditionals only. They hold of a
  new engine and every operation keeps them.
\<close>

definition chains_in_kb :: "LogicEngine \<Rightarrow> bool" where
  "chains_in_kb s \<longleftrightarrow> (\<forall>c \<in> set (derivation_chains s). conclusion c \<in> set (knowledge_base s))"

definition rules_are_implications :: "LogicEngine \<Rightarrow> bool" where
  "rules_are_implications s \<longleftrightarrow>
     (\<forall>r \<in> original_rules s. is_op IMPLIES r \<or> is_op IFF r)"

section \<open>Literals in the parser's grammar\<close>

text \<open>
  The expressions whose rendering has no grouping parentheses: an atom whose subject and
  objects are non-empty, trimmed and free of parentheses (objects also of commas) and whose
  relation is an identifier, under any number of negations.
\<close>

definition trimmed :: "ustring \<Rightarrow> bool" where
  "trimmed t \<longleftrightarrow> strip t = t"

definition valid_subject :: "ustring \<Rightarrow> bool" where
  "valid_subject t \<longleftrightarrow> t \<noteq> [] \<and> trimmed t \<and> \<not> has_paren t"

definition valid_object :: "ustring \<Rightarrow> bool" where
  "valid_object t \<longleftrightarrow> t \<noteq> [] \<and> trimmed t \<and> \<not> has_paren t \<and> comma \<notin> set t"

definition valid_relation :: "ustring \<Rightarrow> bool" where
  "valid_relation r \<longleftrightarrow>
     (case r of [] \<Rightarrow> False | c # cs \<Rightarrow> ident_start c \<and> list_all ident_char cs)"

definition negation :: "expr \<Rightarrow> expr" where
  "negation x = LogicalExpression (Some NOT) [x]"

fun valid_literal :: "expr \<Rightarrow> bool" where
  "valid_literal (Atom s r os) =
     (valid_subject s \<and> valid_relation r \<and> list_all valid_object os)"
| "valid_literal (LogicalExpression opr ops) =
     (case ops of [x] \<Rightarrow> opr = Some NOT \<and> valid_literal x | _ \<Rightarrow> False)"

section \<open>Well-formed expressions\<close>

text \<open>
  The arities of the data model: a negation has an operand, an implication and a
  biconditional have two, at every depth. The parser and the rules build no other
  expression; on one that is not well formed, \<^verbatim>\<open>operands[0]\<close> or \<^verbatim>\<open>operands[1]\<close>
  raises \<^verbatim>\<open>IndexError\<close> in a rule, in \<^verbatim>\<open>__str__\<close> or in the contradiction check.
\<close>

fun well_formed :: "expr \<Rightarrow> bool" where
  "well_formed (Atom s r os) = True"
| "well_formed (LogicalExpression opr ops) =
     ((\<forall>x \<in> set ops. well_formed x) \<and> (opr = Some NOT \<longrightarrow> ops \<noteq> []) \<and>
      (opr = Some IMPLIES \<or> opr = Some IFF \<longrightarrow> 2 \<le> length ops))"

definition well_formed_kb :: "expr list \<Rightarrow> bool" where
  "well_formed_kb kb \<longleftrightarrow> (\<forall>x \<in> set kb. well_formed x)"

text \<open>
  What a loop body of a rule does to the pair of \<^verbatim>\<open>derived\<close> and \<^verbatim>\<open>new_facts\<close>:
  it returns, appends the same new facts to both, and the facts it appends are those of
  a set \<open>C\<close> of well-formed candidates that are neither in the knowledge base nor in
  \<^verbatim>\<open>new_facts\<close> already. \<open>C\<close> does not depend on the pair.
\<close>

definition derives :: "expr list \<Rightarrow> expr set \<Rightarrow> (acc \<Rightarrow> error + acc) \<Rightarrow> bool" where
  "derives kb C f \<longleftrightarrow>
     (\<forall>x \<in> C. well_formed x) \<and>
     (\<forall>d nf. \<exists>new. f (d, nf) = Inr (d @ new, nf @ map fst new) \<and>
        fst ` set new = C - set kb - set nf)"

definition sound_step :: "expr list \<Rightarrow> (acc \<Rightarrow> error + acc) \<Rightarrow> bool" where
  "sound_step kb f \<longleftrightarrow> (\<exists>C. derives kb C f)"

text \<open>The facts a rule derives from a knowledge base when it runs alone.\<close>

definition solo_facts :: "rule \<Rightarrow> expr list \<Rightarrow> expr set" where
  "solo_facts r kb =
     (case rule_apply r kb [] of Inl e \<Rightarrow> {} | Inr (derived, nf) \<Rightarrow> fst ` set derived)"

section \<open>Example engines\<close>

text \<open>
  Scenario A with the rule spelled \<^verbatim>\<open>(X)IsA(estudiante) -> (X)estudia()\<close>, the spelling of
  \<^verbatim>\<open>test_basic.py\<close> that the tokenizer accepts.
\<close>

definition pedro_is_student :: expr where
  "pedro_is_student = Atom (ustr ''Pedro'') (ustr ''IsA'') [ustr ''estudiante'']"

definition students_study :: expr where
  "students_study =
     LogicalExpression (Some IMPLIES)
       [Atom (ustr ''X'') (ustr ''IsA'') [ustr ''estudiante''],
        Atom (ustr ''X'') (ustr ''estudia'') []]"

definition example_engine :: LogicEngine where
  "example_engine = add_rule (add_fact (init_engine 100 False) pedro_is_student) students_study"

definition example_run :: "LogicEngine \<times> InferenceResult" where
  "example_run = projr (infer_all example_engine)"

text \<open>
  An engine with \<^verbatim>\<open>max_iterations=1\<close> whose knowledge base needs two passes: the fact
  \<^verbatim>\<open>(a)P()\<close> and the rule \<^verbatim>\<open>(a)P() -> (b)Q() & (c)R()\<close>.
\<close>

definition capped_engine :: LogicEngine where
  "capped_engine =
     add_rule (add_fact (init_engine 1 False) (Atom (ustr ''a'') (ustr ''P'') []))
       (LogicalExpression (Some IMPLIES)
          [Atom (ustr ''a'') (ustr ''P'') [],
           LogicalExpression (Some AND)
             [Atom (ustr ''b'') (ustr ''Q'') [], Atom (ustr ''c'') (ustr ''R'') []]])"

text \<open>
  The engine of Scenario A's fact and the rule with an argument list, built with
  \<^verbatim>\<open>LogicEngine(max_iterations=-1)\<close>.
\<close>

definition negative_cap_engine :: LogicEngine where
  "negative_cap_engine =
     add_rule (add_fact (init_engine (- 1) False) pedro_is_student) students_study"

text \<open>Scenario D: the atom \<^verbatim>\<open>(Pedro)Feliz()\<close> and its negation.\<close>

definition pedro_feliz :: expr where
  "pedro_feliz = Atom (ustr ''Pedro'') (ustr ''Feliz'') []"

definition contradiction_engine :: LogicEngine where
  "contradiction_engine =
     add_fact (add_fact (init_engine 100 False) pedro_feliz)
       (LogicalExpression (Some NOT) [pedro_feliz])"

text \<open>
  A knowledge base in which \<^verbatim>\<open>(a)P()\<close> follows by Modus Ponens and by Simplification.
\<close>

definition order_kb :: "expr list" where
  "order_kb =
     [Atom (ustr ''c'') (ustr ''R'') [],
      LogicalExpression (Some IMPLIES)
        [Atom (ustr ''c'') (ustr ''R'') [], Atom (ustr ''a'') (ustr ''P'') []],
      LogicalExpression (Some AND)
        [Atom (ustr ''a'') (ustr ''P'') [], Atom (ustr ''b'') (ustr ''Q'') []]]"

section \<open>Properties of the inference loop\<close>

lemma add_derived_chains:
  "derivation_chains (add_derived s d i) = derivation_chains s @ map (chain_of i) d"
  by (induction s d i rule: add_derived.induct) (simp_all add: chain_of_def)

lemma add_derived_kb_set:
  "set (knowledge_base (add_derived s d i)) = set (knowledge_base s) \<union> fst ` set d"
  by (induction s d i rule: add_derived.induct) (auto simp: set_add_def)

lemma add_derived_kb_prefix:
  "\<exists>ext. knowledge_base (add_derived s d i) = knowledge_base s @ ext"
  by (induction s d i rule: add_derived.induct) (auto simp: set_add_def)

lemma add_derived_kb_distinct:
  "distinct (knowledge_base s) \<Longrightarrow> distinct (knowledge_base (add_derived s d i))"
  by (induction s d i rule: add_derived.induct) (auto simp: set_add_def)

lemma add_derived_frame:
  "original_facts (add_derived s d i) = original_facts s"
  "original_rules (add_derived s d i) = original_rules s"
  "rule_manager (add_derived s d i) = rule_manager s"
  "contradictions (add_derived s d i) = contradictions s"
  by (induction s d i rule: add_derived.induct) simp_all

lemma infer_loop_cases:
  assumes "infer_loop s i = Inr (s', n)"
  obtains (cap) "\<not> i < max_iterations s" "s' = s" "n = i"
  | (saturated) "i < max_iterations s"
      "apply_all_rules (rule_manager s) (knowledge_base s) = Inr []" "s' = s" "n = i + 1"
  | (step) d where "i < max_iterations s"
      "apply_all_rules (rule_manager s) (knowledge_base s) = Inr d" "d \<noteq> []"
      "infer_loop (add_derived s d (i + 1)) (i + 1) = Inr (s', n)"
  using assms by (subst (asm) infer_loop.simps) (auto split: if_splits sum.splits)

lemma infer_loop_frame:
  "infer_loop s i = Inr (s', n) \<Longrightarrow>
     max_iterations s' = max_iterations s \<and> rule_manager s' = rule_manager s \<and>
     original_facts s' = original_facts s \<and> original_rules s' = original_rules s \<and>
     contradictions s' = contradictions s"
proof (induction s i arbitrary: s' n rule: infer_loop.induct)
  case (1 s iteration)
  from "1.prems" show ?case
  proof (cases rule: infer_loop_cases)
    case (step d)
    from "1.IH"[OF step(1) step(2) step(3) step(4)] show ?thesis
      by (simp add: add_derived_frame)
  qed simp_all
qed

lemma infer_loop_count:
  "infer_loop s i = Inr (s', n) \<Longrightarrow> n = i + int (length (infer_trace s i))"
proof (induction s i arbitrary: s' n rule: infer_loop.induct)
  case (1 s iteration)
  from "1.prems" show ?case
  proof (cases rule: infer_loop_cases)
    case cap
    then show ?thesis by (subst infer_trace.simps) simp
  next
    case saturated
    then show ?thesis by (subst infer_trace.simps) simp
  next
    case (step d)
    from "1.IH"[OF step(1) step(2) step(3) step(4)] step(1,2,3) show ?thesis
      by (subst infer_trace.simps) simp
  qed
qed

lemma infer_trace_length:
  "int (length (infer_trace s i)) \<le> max 0 (max_iterations s - i)"
proof (induction s i rule: infer_trace.induct)
  case (1 s iteration)
  show ?case
  proof (cases "iteration < max_iterations s")
    case False
    then show ?thesis by (subst infer_trace.simps) simp
  next
    case True
    show ?thesis
    proof (cases "apply_all_rules (rule_manager s) (knowledge_base s)")
      case (Inl e)
      with True show ?thesis by (subst infer_trace.simps) simp
    next
      case (Inr d)
      show ?thesis
      proof (cases "d = []")
        case True
        with Inr \<open>iteration < max_iterations s\<close> show ?thesis
          by (subst infer_trace.simps) simp
      next
        case False
        from "1.IH"[OF True Inr False] Inr True False show ?thesis
          by (subst infer_trace.simps) simp
      qed
    qed
  qed
qed

lemma infer_trace_all_productive:
  "infer_loop s i = Inr (s', n) \<Longrightarrow> \<forall>p \<in> set (infer_trace s i). snd p \<noteq> [] \<Longrightarrow>
     int (length (infer_trace s i)) = max 0 (max_iterations s - i)"
proof (induction s i arbitrary: s' n rule: infer_loop.induct)
  case (1 s iteration)
  from "1.prems"(1) show ?case
  proof (cases rule: infer_loop_cases)
    case cap
    then show ?thesis by (subst infer_trace.simps) simp
  next
    case saturated
    with "1.prems"(2) show ?thesis by (subst (asm) infer_trace.simps) simp
  next
    case (step d)
    from "1.prems"(2) step(1,2,3)
    have "\<forall>p \<in> set (infer_trace (add_derived s d (iteration + 1)) (iteration + 1)). snd p \<noteq> []"
      by (subst (asm) infer_trace.simps) simp
    from "1.IH"[OF step(1) step(2) step(3) step(4) this] step(1,2,3) show ?thesis
      by (subst infer_trace.simps) simp
  qed
qed

lemma infer_trace_unfold_step:
  "i < max_iterations s \<Longrightarrow> apply_all_rules (rule_manager s) (knowledge_base s) = Inr d \<Longrightarrow>
   d \<noteq> [] \<Longrightarrow>
   infer_trace s i = (knowledge_base s, d) # infer_trace (add_derived s d (i + 1)) (i + 1)"
  by (subst infer_trace.simps) simp

lemma infer_trace_unfold_saturated:
  "i < max_iterations s \<Longrightarrow> apply_all_rules (rule_manager s) (knowledge_base s) = Inr [] \<Longrightarrow>
   infer_trace s i = [(knowledge_base s, [])]"
  by (subst infer_trace.simps) simp

lemma infer_trace_unfold_cap:
  "\<not> i < max_iterations s \<Longrightarrow> infer_trace s i = []"
  by (subst infer_trace.simps) simp

lemma infer_trace_hd:
  "infer_trace s i \<noteq> [] \<Longrightarrow> fst (hd (infer_trace s i)) = knowledge_base s"
  by (subst (asm) infer_trace.simps, subst infer_trace.simps)
     (auto split: if_splits sum.splits)

lemma infer_trace_consecutive:
  "Suc k < length (infer_trace s i) \<Longrightarrow>
     set (fst (infer_trace s i ! Suc k)) =
       set (fst (infer_trace s i ! k)) \<union> fst ` set (snd (infer_trace s i ! k)) \<and>
     length (fst (infer_trace s i ! k)) \<le> length (fst (infer_trace s i ! Suc k))"
proof (induction s i arbitrary: k rule: infer_trace.induct)
  case (1 s iteration)
  show ?case
  proof (cases "iteration < max_iterations s")
    case False
    with "1.prems" show ?thesis by (simp add: infer_trace_unfold_cap)
  next
    case lt: True
    show ?thesis
    proof (cases "apply_all_rules (rule_manager s) (knowledge_base s)")
      case (Inl e)
      with lt "1.prems" show ?thesis by (subst (asm) infer_trace.simps) simp
    next
      case (Inr d)
      show ?thesis
      proof (cases "d = []")
        case True
        with lt Inr "1.prems" show ?thesis by (simp add: infer_trace_unfold_saturated)
      next
        case False
        let ?s1 = "add_derived s d (iteration + 1)"
        let ?tr1 = "infer_trace ?s1 (iteration + 1)"
        have tr: "infer_trace s iteration = (knowledge_base s, d) # ?tr1"
          using lt Inr False by (rule infer_trace_unfold_step)
        show ?thesis
        proof (cases k)
          case 0
          with "1.prems" tr have ne: "?tr1 \<noteq> []" by auto
          then have h: "fst (?tr1 ! 0) = knowledge_base ?s1"
            using infer_trace_hd[OF ne] by (simp add: hd_conv_nth)
          obtain ext where "knowledge_base ?s1 = knowledge_base s @ ext"
            using add_derived_kb_prefix by blast
          then have len: "length (knowledge_base s) \<le> length (knowledge_base ?s1)"
            by simp
          have "set (knowledge_base ?s1) = set (knowledge_base s) \<union> fst ` set d"
            by (rule add_derived_kb_set)
          with h len show ?thesis
            using 0 tr by simp
        next
          case (Suc k')
          with "1.prems" tr have "Suc k' < length ?tr1" by simp
          from "1.IH"[OF lt Inr False this] Suc tr show ?thesis by simp
        qed
      qed
    qed
  qed
qed

lemma infer_loop_kb_prefix:
  "infer_loop s i = Inr (s', n) \<Longrightarrow> \<exists>ext. knowledge_base s' = knowledge_base s @ ext"
proof (induction s i arbitrary: s' n rule: infer_loop.induct)
  case (1 s iteration)
  from "1.prems" show ?case
  proof (cases rule: infer_loop_cases)
    case (step d)
    from "1.IH"[OF step(1) step(2) step(3) step(4)]
    obtain ext where "knowledge_base s' = knowledge_base (add_derived s d (iteration + 1)) @ ext"
      by blast
    moreover obtain ext' where
      "knowledge_base (add_derived s d (iteration + 1)) = knowledge_base s @ ext'"
      using add_derived_kb_prefix by blast
    ultimately show ?thesis by simp
  qed simp_all
qed

lemma infer_loop_kb_distinct:
  "infer_loop s i = Inr (s', n) \<Longrightarrow> distinct (knowledge_base s) \<Longrightarrow>
     distinct (knowledge_base s')"
proof (induction s i arbitrary: s' n rule: infer_loop.induct)
  case (1 s iteration)
  from "1.prems"(1) show ?case
  proof (cases rule: infer_loop_cases)
    case (step d)
    from "1.IH"[OF step(1) step(2) step(3) step(4)] "1.prems"(2) show ?thesis
      by (simp add: add_derived_kb_distinct)
  qed (use "1.prems"(2) in simp_all)
qed

lemma infer_loop_final_kb:
  "infer_loop s i = Inr (s', n) \<Longrightarrow> infer_trace s i \<noteq> [] \<Longrightarrow>
     set (knowledge_base s') =
       set (fst (last (infer_trace s i))) \<union> fst ` set (snd (last (infer_trace s i)))"
proof (induction s i arbitrary: s' n rule: infer_loop.induct)
  case (1 s iteration)
  from "1.prems"(1) show ?case
  proof (cases rule: infer_loop_cases)
    case cap
    with "1.prems"(2) show ?thesis by (simp add: infer_trace_unfold_cap)
  next
    case saturated
    then show ?thesis by (simp add: infer_trace_unfold_saturated)
  next
    case (step d)
    let ?s1 = "add_derived s d (iteration + 1)"
    let ?tr1 = "infer_trace ?s1 (iteration + 1)"
    have tr: "infer_trace s iteration = (knowledge_base s, d) # ?tr1"
      using step(1,2,3) by (rule infer_trace_unfold_step)
    show ?thesis
    proof (cases "?tr1 = []")
      case True
      then have "\<not> iteration + 1 < max_iterations ?s1 \<or>
          (\<exists>e. apply_all_rules (rule_manager ?s1) (knowledge_base ?s1) = Inl e)"
        by (subst (asm) infer_trace.simps) (auto split: if_splits sum.splits)
      with step(4) have "s' = ?s1"
        by (subst (asm) infer_loop.simps) (auto split: if_splits sum.splits)
      with True tr show ?thesis by (simp add: add_derived_kb_set)
    next
      case False
      from "1.IH"[OF step(1) step(2) step(3) step(4) False] False tr show ?thesis by simp
    qed
  qed
qed

lemma infer_loop_chains:
  "infer_loop s i = Inr (s', n) \<Longrightarrow>
     \<exists>new. derivation_chains s' = derivation_chains s @ new \<and>
       (\<forall>c \<in> set new. conclusion c \<in> set (knowledge_base s') \<and> i < depth c \<and> depth c \<le> n)"
proof (induction s i arbitrary: s' n rule: infer_loop.induct)
  case (1 s iteration)
  from "1.prems" show ?case
  proof (cases rule: infer_loop_cases)
    case (step d)
    let ?s1 = "add_derived s d (iteration + 1)"
    from "1.IH"[OF step(1) step(2) step(3) step(4)] obtain new where
      new: "derivation_chains s' = derivation_chains ?s1 @ new"
        "\<forall>c \<in> set new. conclusion c \<in> set (knowledge_base s') \<and> iteration + 1 < depth c \<and> depth c \<le> n"
      by blast
    obtain ext where ext: "knowledge_base s' = knowledge_base ?s1 @ ext"
      using infer_loop_kb_prefix[OF step(4)] by blast
    have n: "iteration + 1 \<le> n"
      using infer_loop_count[OF step(4)] by simp
    let ?new = "map (chain_of (iteration + 1)) d @ new"
    have "derivation_chains s' = derivation_chains s @ ?new"
      using new(1) by (simp add: add_derived_chains)
    moreover have "\<forall>c \<in> set ?new. conclusion c \<in> set (knowledge_base s') \<and> iteration < depth c \<and> depth c \<le> n"
    proof
      fix c assume "c \<in> set ?new"
      then consider (a) x where "x \<in> set d" "c = chain_of (iteration + 1) x" | (b) "c \<in> set new"
        by auto
      then show "conclusion c \<in> set (knowledge_base s') \<and> iteration < depth c \<and> depth c \<le> n"
      proof cases
        case a
        have "fst x \<in> set (knowledge_base ?s1)"
          using a(1) by (simp add: add_derived_kb_set)
        with a(2) ext n show ?thesis by (simp add: chain_of_def)
      next
        case b
        with new(2) show ?thesis by force
      qed
    qed
    ultimately show ?thesis by blast
  qed simp_all
qed

lemma infer_loop_saturated:
  "infer_loop s i = Inr (s', n) \<Longrightarrow> infer_trace s i \<noteq> [] \<Longrightarrow>
   snd (last (infer_trace s i)) = [] \<Longrightarrow>
     apply_all_rules (rule_manager s') (knowledge_base s') = Inr [] \<and> i < max_iterations s"
proof (induction s i arbitrary: s' n rule: infer_loop.induct)
  case (1 s iteration)
  from "1.prems"(1) show ?case
  proof (cases rule: infer_loop_cases)
    case cap
    with "1.prems"(2) show ?thesis by (simp add: infer_trace_unfold_cap)
  next
    case saturated
    then show ?thesis by simp
  next
    case (step d)
    let ?s1 = "add_derived s d (iteration + 1)"
    let ?tr1 = "infer_trace ?s1 (iteration + 1)"
    have tr: "infer_trace s iteration = (knowledge_base s, d) # ?tr1"
      using step(1,2,3) by (rule infer_trace_unfold_step)
    with "1.prems"(3) step(3) have ne: "?tr1 \<noteq> []" by auto
    with tr "1.prems"(3) have "snd (last ?tr1) = []" by simp
    from "1.IH"[OF step(1) step(2) step(3) step(4) ne this] step(1) show ?thesis by simp
  qed
qed

lemma infer_loop_below_cap:
  "infer_loop s i = Inr (s', n) \<Longrightarrow> n < max_iterations s \<Longrightarrow>
     infer_trace s i \<noteq> [] \<and> snd (last (infer_trace s i)) = []"
proof (induction s i arbitrary: s' n rule: infer_loop.induct)
  case (1 s iteration)
  from "1.prems"(1) show ?case
  proof (cases rule: infer_loop_cases)
    case cap
    with "1.prems"(2) show ?thesis by simp
  next
    case saturated
    then show ?thesis by (simp add: infer_trace_unfold_saturated)
  next
    case (step d)
    have tr: "infer_trace s iteration =
        (knowledge_base s, d) # infer_trace (add_derived s d (iteration + 1)) (iteration + 1)"
      using step(1,2,3) by (rule infer_trace_unfold_step)
    from "1.IH"[OF step(1) step(2) step(3) step(4)] "1.prems"(2) tr show ?thesis by simp
  qed
qed

lemma detect_contradictions_frame:
  "detect_contradictions s = Inr s' \<Longrightarrow> \<exists>found. s' = s\<lparr>contradictions := found\<rparr>"
  by (auto simp: detect_contradictions_def Let_def split: sum.splits)

lemma detect_contradictions_kb:
  "detect_contradictions s = Inr s' \<Longrightarrow>
   knowledge_base t = knowledge_base s \<Longrightarrow>
     detect_contradictions t = Inr (t\<lparr>contradictions := contradictions s'\<rparr>)"
  by (auto simp: detect_contradictions_def Let_def split: sum.splits)

lemma infer_all_cases:
  assumes "infer_all s = Inr (s', r)"
  obtains s1 n where "infer_loop s 0 = Inr (s1, n)" "detect_contradictions s1 = Inr s'"
    "r = \<lparr>res_original_facts = original_facts s', res_original_rules = original_rules s',
          derived_facts = derivation_chains s', iterations = n,
          res_contradictions = contradictions s'\<rparr>"
  using assms by (auto simp: infer_all_def split: sum.splits prod.splits)

subsection \<open>Contradiction detection\<close>

lemma is_op_NOT_cases:
  assumes "is_op NOT ng"
  obtains ops where "ng = LogicalExpression (Some NOT) ops"
  using assms by (cases ng) auto

lemma detect_step_result:
  assumes "is_op NOT ng" and "detect_step (filter is_Atom kb) ng found = Inr found'"
  shows "found' = found @ map (\<lambda>(a, ng). contradiction_entry a) (pairs_of kb ng)"
proof -
  from assms(1) obtain ops where ng: "ng = LogicalExpression (Some NOT) ops"
    by (rule is_op_NOT_cases)
  show ?thesis
  proof (cases ops)
    case Nil
    with assms(2) ng show ?thesis by (simp add: detect_step_def index_def)
  next
    case (Cons x rest)
    show ?thesis
    proof (cases "is_Atom x \<and> x \<in> set kb")
      case False
      with assms(2) ng Cons show ?thesis
        by (auto simp: detect_step_def index_def pairs_of_def)
    next
      case True
      then obtain sb rl os where x: "x = Atom sb rl os" by (cases x) auto
      with True assms(2) ng Cons show ?thesis
        by (simp add: detect_step_def index_def pairs_of_def contradiction_text_def
            fstring_def contradiction_entry_def)
    qed
  qed
qed

lemma detect_loop_result:
  "\<forall>ng \<in> set negs. is_op NOT ng \<Longrightarrow>
   for_each (detect_step (filter is_Atom kb)) negs found = Inr found' \<Longrightarrow>
     found' = found @ map (\<lambda>(a, ng). contradiction_entry a) (concat (map (pairs_of kb) negs))"
proof (induction negs arbitrary: found)
  case Nil
  then show ?case by simp
next
  case (Cons ng negs)
  from Cons.prems(2) obtain f1 where
    s: "detect_step (filter is_Atom kb) ng found = Inr f1" and
    r: "for_each (detect_step (filter is_Atom kb)) negs f1 = Inr found'"
    by (auto split: sum.splits)
  from Cons.prems(1) have "is_op NOT ng" by simp
  from detect_step_result[OF this s] Cons.IH[OF _ r] Cons.prems(1) show ?case by simp
qed

lemma pairs_of_not_NOT: "\<not> is_op NOT ng \<Longrightarrow> pairs_of kb ng = []"
  by (cases ng rule: negated.cases) (auto simp: pairs_of_def)

lemma concat_map_filter_skip:
  "(\<And>x. \<not> P x \<Longrightarrow> f x = []) \<Longrightarrow> concat (map f (filter P xs)) = concat (map f xs)"
  by (induction xs) auto

lemma detect_contradictions_result:
  assumes "detect_contradictions s = Inr s'"
  shows "contradictions s' =
     map (\<lambda>(a, ng). contradiction_entry a) (contradictory_pairs (knowledge_base s))"
proof -
  from assms obtain found where
    f: "for_each (detect_step (filter is_Atom (knowledge_base s)))
          (filter (is_op NOT) (knowledge_base s)) [] = Inr found" and
    s': "s' = s\<lparr>contradictions := found\<rparr>"
    by (auto simp: detect_contradictions_def Let_def split: sum.splits)
  have "found = map (\<lambda>(a, ng). contradiction_entry a)
      (concat (map (pairs_of (knowledge_base s)) (filter (is_op NOT) (knowledge_base s))))"
    using detect_loop_result[OF _ f] by simp
  then show ?thesis
    using s' by (simp add: contradictory_pairs_def concat_map_filter_skip pairs_of_not_NOT)
qed

lemma set_contradictory_pairs:
  "set (contradictory_pairs kb) =
     {(a, ng). a \<in> set kb \<and> is_Atom a \<and> ng \<in> set kb \<and> negated ng = Some a}"
  by (auto simp: contradictory_pairs_def pairs_of_def split: option.splits if_splits)

lemma map_snd_pairs: "map snd (concat (map (pairs_of kb) xs)) = filter (\<lambda>ng. pairs_of kb ng \<noteq> []) xs"
  by (induction xs) (auto simp: pairs_of_def split: option.splits)

lemma distinct_contradictory_pairs:
  "distinct kb \<Longrightarrow> distinct (contradictory_pairs kb)"
proof -
  assume "distinct kb"
  then have "distinct (map snd (contradictory_pairs kb))"
    by (simp add: contradictory_pairs_def map_snd_pairs)
  then show ?thesis by (rule distinct_map[THEN iffD1, THEN conjunct1])
qed

lemma distinct_set_singleton:
  "distinct xs \<Longrightarrow> set xs = {y} \<Longrightarrow> xs = [y]"
proof (cases xs)
  case Nil
  assume "set xs = {y}" with Nil show ?thesis by simp
next
  case (Cons a rest)
  assume d: "distinct xs" and s: "set xs = {y}"
  from s Cons have a: "a = y" by auto
  from s Cons a have "set rest \<subseteq> {y}" by auto
  moreover from d Cons a have "y \<notin> set rest" by simp
  ultimately have "rest = []" by (cases rest) auto
  with Cons a show ?thesis by simp
qed

lemma negated_Some:
  "negated ng = Some a \<Longrightarrow> \<exists>rest. ng = LogicalExpression (Some NOT) (a # rest)"
proof (cases ng)
  case (Atom s r os)
  assume "negated ng = Some a" with Atom show ?thesis by simp
next
  case (LogicalExpression opr ops)
  assume n: "negated ng = Some a"
  show ?thesis
  proof (cases opr)
    case None
    with n LogicalExpression show ?thesis by simp
  next
    case (Some oper)
    with n LogicalExpression show ?thesis
      by (cases oper; cases ops) simp_all
  qed
qed

lemma single_entry_of_an_atom:
  assumes "distinct kb" and "\<forall>ng \<in> set kb. is_op NOT ng \<longrightarrow> length (operands ng) = 1"
    and "is_Atom a" and "a \<in> set kb" and "LogicalExpression (Some NOT) [a] \<in> set kb"
  shows "filter (\<lambda>p. fst p = a) (contradictory_pairs kb) = [(a, LogicalExpression (Some NOT) [a])]"
proof -
  have d: "distinct (filter (\<lambda>p. fst p = a) (contradictory_pairs kb))"
    using assms(1) by (simp add: distinct_contradictory_pairs)
  have u: "ng = LogicalExpression (Some NOT) [a]"
    if "ng \<in> set kb" and "negated ng = Some a" for ng
  proof -
    from negated_Some[OF that(2)] obtain rest where
      ng: "ng = LogicalExpression (Some NOT) (a # rest)" by blast
    from assms(2) that(1) have "is_op NOT ng \<longrightarrow> length (operands ng) = 1" by blast
    with ng have "rest = []" by simp
    with ng show ?thesis by simp
  qed
  have m: "(a, LogicalExpression (Some NOT) [a]) \<in> set (contradictory_pairs kb)"
    using assms(3,4,5) by (simp add: set_contradictory_pairs)
  have "set (filter (\<lambda>p. fst p = a) (contradictory_pairs kb)) =
      {(a, LogicalExpression (Some NOT) [a])}"
  proof (rule set_eqI)
    fix p :: "expr \<times> expr"
    show "p \<in> set (filter (\<lambda>p. fst p = a) (contradictory_pairs kb)) \<longleftrightarrow>
        p \<in> {(a, LogicalExpression (Some NOT) [a])}"
    proof
      assume "p \<in> set (filter (\<lambda>p. fst p = a) (contradictory_pairs kb))"
      then have f: "fst p = a" and i: "p \<in> set (contradictory_pairs kb)" by simp_all
      obtain x ng where p: "p = (x, ng)" by (cases p)
      from i have "snd p \<in> set kb \<and> negated (snd p) = Some (fst p)"
        unfolding p by (simp add: set_contradictory_pairs)
      with f u[of "snd p"] have "snd p = LogicalExpression (Some NOT) [a]" by simp
      with f show "p \<in> {(a, LogicalExpression (Some NOT) [a])}" by (cases p) simp
    next
      assume "p \<in> {(a, LogicalExpression (Some NOT) [a])}"
      with m show "p \<in> set (filter (\<lambda>p. fst p = a) (contradictory_pairs kb))" by simp
    qed
  qed
  with d show ?thesis by (rule distinct_set_singleton)
qed

subsection \<open>Invariants\<close>

lemma chains_in_kb_init: "chains_in_kb (init_engine m c)"
  by (simp add: chains_in_kb_def init_engine_def)

lemma chains_in_kb_clear: "chains_in_kb (clear s)"
  by (simp add: chains_in_kb_def clear_def)

lemma chains_in_kb_add_fact: "chains_in_kb s \<Longrightarrow> chains_in_kb (add_fact s e)"
  by (auto simp: chains_in_kb_def add_fact_def set_add_def)

lemma chains_in_kb_add_rule: "chains_in_kb s \<Longrightarrow> chains_in_kb (add_rule s e)"
  by (auto simp: chains_in_kb_def add_rule_def set_add_def Let_def)

lemma infer_loop_trace_subset:
  "infer_loop s i = Inr (s', n) \<Longrightarrow>
     \<forall>p \<in> set (infer_trace s i). set (fst p) \<union> fst ` set (snd p) \<subseteq> set (knowledge_base s')"
proof (induction s i arbitrary: s' n rule: infer_loop.induct)
  case (1 s iteration)
  from "1.prems" show ?case
  proof (cases rule: infer_loop_cases)
    case cap
    then show ?thesis by (simp add: infer_trace_unfold_cap)
  next
    case saturated
    then show ?thesis by (simp add: infer_trace_unfold_saturated)
  next
    case (step d)
    let ?s1 = "add_derived s d (iteration + 1)"
    have tr: "infer_trace s iteration = (knowledge_base s, d) # infer_trace ?s1 (iteration + 1)"
      using step(1,2,3) by (rule infer_trace_unfold_step)
    obtain ext where "knowledge_base s' = knowledge_base ?s1 @ ext"
      using infer_loop_kb_prefix[OF step(4)] by blast
    then have "set (knowledge_base ?s1) \<subseteq> set (knowledge_base s')" by simp
    then have "set (knowledge_base s) \<union> fst ` set d \<subseteq> set (knowledge_base s')"
      by (simp add: add_derived_kb_set)
    with "1.IH"[OF step(1) step(2) step(3) step(4)] tr show ?thesis by simp
  qed
qed

lemma chains_in_kb_infer_all:
  assumes "infer_all s = Inr (s', r)" and "chains_in_kb s"
  shows "chains_in_kb s'"
proof -
  from assms(1) obtain s1 n where
    l: "infer_loop s 0 = Inr (s1, n)" and d: "detect_contradictions s1 = Inr s'"
    by (cases rule: infer_all_cases)
  from detect_contradictions_frame[OF d] have
    kb: "knowledge_base s' = knowledge_base s1" and ch: "derivation_chains s' = derivation_chains s1"
    by auto
  obtain ext where ext: "knowledge_base s1 = knowledge_base s @ ext"
    using infer_loop_kb_prefix[OF l] by blast
  obtain new where new: "derivation_chains s1 = derivation_chains s @ new"
    "\<forall>c \<in> set new. conclusion c \<in> set (knowledge_base s1)"
    using infer_loop_chains[OF l] by blast
  show ?thesis
    unfolding chains_in_kb_def
  proof
    fix c assume "c \<in> set (derivation_chains s')"
    with ch new(1) consider "c \<in> set (derivation_chains s)" | "c \<in> set new" by auto
    then show "conclusion c \<in> set (knowledge_base s')"
    proof cases
      case 1
      with assms(2) ext kb show ?thesis by (simp add: chains_in_kb_def)
    next
      case 2
      with new(2) kb show ?thesis by simp
    qed
  qed
qed

section \<open>The rules on well-formed knowledge bases\<close>

lemma sound_step_skip: "sound_step kb Inr"
  unfolding sound_step_def derives_def
  by (rule exI[of _ "{}"]) simp

lemma sound_step_emit:
  assumes "well_formed x"
  shows "sound_step kb (emit kb x (Inr j))"
  unfolding sound_step_def derives_def
proof (rule exI[of _ "{x}"], intro conjI allI)
  show "\<forall>y \<in> {x}. well_formed y" using assms by simp
next
  fix d nf
  show "\<exists>new. emit kb x (Inr j) (d, nf) = Inr (d @ new, nf @ map fst new) \<and>
      fst ` set new = {x} - set kb - set nf"
  proof (cases "x \<notin> set kb \<and> x \<notin> set nf")
    case True
    then have "emit kb x (Inr j) (d, nf) = Inr (d @ [(x, j)], nf @ map fst [(x, j)])"
      by (simp add: emit_def set_add_def)
    moreover have "fst ` set [(x, j)] = {x} - set kb - set nf" using True by auto
    ultimately show ?thesis by blast
  next
    case False
    then have "emit kb x (Inr j) (d, nf) = Inr (d @ [], nf @ map fst [])"
      by (auto simp: emit_def)
    moreover have "fst ` set ([] :: (expr \<times> ustring) list) = {x} - set kb - set nf"
      using False by auto
    ultimately show ?thesis by blast
  qed
qed

lemma sound_step_bind:
  assumes "sound_step kb f" and "sound_step kb g"
  shows "sound_step kb (\<lambda>st. case f st of Inl e \<Rightarrow> Inl e | Inr st' \<Rightarrow> g st')"
proof -
  from assms obtain C1 C2 where c1: "derives kb C1 f" and c2: "derives kb C2 g"
    by (auto simp: sound_step_def)
  have "derives kb (C1 \<union> C2) (\<lambda>st. case f st of Inl e \<Rightarrow> Inl e | Inr st' \<Rightarrow> g st')"
    unfolding derives_def
  proof (intro conjI allI)
    show "\<forall>x \<in> C1 \<union> C2. well_formed x" using c1 c2 by (auto simp: derives_def)
  next
    fix d nf
    from c1 obtain n1 where n1: "f (d, nf) = Inr (d @ n1, nf @ map fst n1)"
      "fst ` set n1 = C1 - set kb - set nf"
      unfolding derives_def by blast
    from c2 obtain n2 where n2: "g (d @ n1, nf @ map fst n1) =
        Inr ((d @ n1) @ n2, (nf @ map fst n1) @ map fst n2)"
      "fst ` set n2 = C2 - set kb - set (nf @ map fst n1)"
      unfolding derives_def by blast
    have "(case f (d, nf) of Inl e \<Rightarrow> Inl e | Inr st' \<Rightarrow> g st') =
        Inr (d @ (n1 @ n2), nf @ map fst (n1 @ n2))"
      using n1(1) n2(1) by simp
    moreover have "fst ` set (n1 @ n2) = C1 \<union> C2 - set kb - set nf"
    proof -
      have "fst ` set (n1 @ n2) = fst ` set n1 \<union> fst ` set n2"
        by (simp add: image_Un)
      also have "\<dots> = (C1 - set kb - set nf) \<union> (C2 - set kb - (set nf \<union> (C1 - set kb - set nf)))"
        using n1(2) n2(2) by simp
      also have "\<dots> = C1 \<union> C2 - set kb - set nf" by blast
      finally show ?thesis .
    qed
    ultimately show "\<exists>new. (case f (d, nf) of Inl e \<Rightarrow> Inl e | Inr st' \<Rightarrow> g st') =
        Inr (d @ new, nf @ map fst new) \<and> fst ` set new = C1 \<union> C2 - set kb - set nf"
      by blast
  qed
  then show ?thesis by (auto simp: sound_step_def)
qed

lemma sound_step_for_each:
  "(\<And>x. x \<in> set xs \<Longrightarrow> sound_step kb (body x)) \<Longrightarrow> sound_step kb (for_each body xs)"
proof (induction xs)
  case Nil
  have "for_each body [] = Inr" by (rule ext) simp
  then show ?case by (simp add: sound_step_skip)
next
  case (Cons x xs)
  have e: "for_each body (x # xs) =
      (\<lambda>st. case body x st of Inl e \<Rightarrow> Inl e | Inr st' \<Rightarrow> for_each body xs st')"
    by (rule ext) simp
  have "sound_step kb (body x)" using Cons.prems by simp
  moreover have "sound_step kb (for_each body xs)" using Cons by simp
  ultimately show ?case unfolding e by (rule sound_step_bind)
qed

lemma sound_step_cong: "(\<And>st. f st = g st) \<Longrightarrow> sound_step kb g \<Longrightarrow> sound_step kb f"
proof -
  assume "\<And>st. f st = g st"
  then have "f = g" by (rule ext)
  then show "sound_step kb g \<Longrightarrow> sound_step kb f" by simp
qed

lemma sound_step_result:
  assumes "sound_step kb f"
  obtains new new0 where
    "f ([], nf) = Inr (new, nf @ map fst new)" and
    "f ([], []) = Inr (new0, map fst new0)" and
    "fst ` set new = fst ` set new0 - set nf" and
    "\<forall>x \<in> fst ` set new. well_formed x"
proof -
  from assms obtain C where c: "derives kb C f" by (auto simp: sound_step_def)
  then have w: "\<forall>x \<in> C. well_formed x" and
    r: "\<And>d nf. \<exists>new. f (d, nf) = Inr (d @ new, nf @ map fst new) \<and>
        fst ` set new = C - set kb - set nf"
    by (simp_all add: derives_def)
  from r[of "[]" nf] obtain new where
    n: "f ([], nf) = Inr ([] @ new, nf @ map fst new) \<and> fst ` set new = C - set kb - set nf" ..
  from r[of "[]" "[]"] obtain new0 where
    n0: "f ([], []) = Inr ([] @ new0, [] @ map fst new0) \<and>
         fst ` set new0 = C - set kb - set []" ..
  have a: "f ([], nf) = Inr (new, nf @ map fst new)" using n by simp
  have b: "f ([], []) = Inr (new0, map fst new0)" using n0 by simp
  have s0: "fst ` set new0 = C - set kb" using n0 by simp
  have s1: "fst ` set new = C - set kb - set nf" using n by simp
  have c': "fst ` set new = fst ` set new0 - set nf" using s0 s1 by simp
  have d: "\<forall>x \<in> fst ` set new. well_formed x"
  proof
    fix x assume "x \<in> fst ` set new"
    with s1 have "x \<in> C" by simp
    with w show "well_formed x" by simp
  qed
  from a b c' d show ?thesis by (rule that)
qed

subsection \<open>Rendering never fails on well-formed expressions\<close>

lemma sequence_Inr:
  "(\<And>x. x \<in> set xs \<Longrightarrow> \<exists>v. x = Inr v) \<Longrightarrow> \<exists>vs. sequence xs = Inr vs"
proof (induction xs)
  case Nil
  then show ?case by simp
next
  case (Cons x xs)
  from Cons.prems obtain v where "x = Inr v" by auto
  moreover from Cons obtain vs where "sequence xs = Inr vs" by auto
  ultimately show ?case by simp
qed

lemma str_expr_Inr: "well_formed e \<Longrightarrow> \<exists>t. str_expr e = Inr t"
proof (induction e rule: str_expr.induct)
  case (1 s r objs)
  then show ?case by simp
next
  case (2 opr ops)
  show ?case
  proof (cases opr)
    case None
    show ?thesis
    proof (cases ops)
      case Nil
      with None show ?thesis by simp
    next
      case (Cons x rest)
      with "2.prems" have "well_formed x" by simp
      from "2.IH"(1)[OF None Cons this] None Cons show ?thesis by simp
    qed
  next
    case (Some oper)
    show ?thesis
    proof (cases "oper = NOT")
      case True
      with "2.prems" Some obtain x rest where ops: "ops = x # rest" by (cases ops) auto
      with "2.prems" have "well_formed x" by simp
      from "2.IH"(2)[OF Some True ops this] Some True ops show ?thesis by auto
    next
      case False
      have "\<exists>v. y = Inr v" if "y \<in> set (map str_expr ops)" for y
      proof -
        from that obtain x where x: "x \<in> set ops" "y = str_expr x" by auto
        with "2.prems" have "well_formed x" by simp
        from "2.IH"(3)[OF Some False x(1) this] x(2) show ?thesis by simp
      qed
      then obtain vs where "sequence (map str_expr ops) = Inr vs"
        using sequence_Inr by blast
      with Some False show ?thesis by simp
    qed
  qed
qed

lemma fstring_Inr:
  "(\<And>x. x \<in> set parts \<Longrightarrow> \<exists>v. x = Inr v) \<Longrightarrow> \<exists>t. fstring parts = Inr t"
  using sequence_Inr[of parts] by (auto simp: fstring_def)

lemma is_op_cases:
  assumes "is_op oper e"
  obtains ops where "e = LogicalExpression (Some oper) ops"
  using assms by (cases e) auto

lemma well_formed_operand:
  "well_formed (LogicalExpression opr ops) \<Longrightarrow> x \<in> set ops \<Longrightarrow> well_formed x"
  by simp

lemma well_formed_substitute: "well_formed (substitute e b) = well_formed e"
  by (induction e b rule: substitute.induct) auto

lemma sound_step_emit_or_skip:
  assumes "(\<exists>x j. well_formed x \<and> (\<forall>st. f st = emit kb x (Inr j) st)) \<or> (\<forall>st. f st = Inr st)"
  shows "sound_step kb f"
  using assms
proof
  assume "\<exists>x j. well_formed x \<and> (\<forall>st. f st = emit kb x (Inr j) st)"
  then obtain x j where "well_formed x" and e: "\<And>st. f st = emit kb x (Inr j) st" by blast
  from e sound_step_emit[OF \<open>well_formed x\<close>] show ?thesis by (rule sound_step_cong)
next
  assume "\<forall>st. f st = Inr st"
  then have "\<And>st. f st = Inr st" by blast
  then show ?thesis using sound_step_skip by (rule sound_step_cong)
qed

lemma justification_Inr:
  "well_formed a \<Longrightarrow> well_formed b \<Longrightarrow> well_formed c \<Longrightarrow> \<exists>j. mp_justification a b c = Inr j"
  "well_formed a \<Longrightarrow> well_formed b \<Longrightarrow> well_formed c \<Longrightarrow> \<exists>j. mt_justification a b c = Inr j"
  "well_formed a \<Longrightarrow> well_formed b \<Longrightarrow> well_formed c \<Longrightarrow> \<exists>j. hs_justification a b c = Inr j"
  "well_formed a \<Longrightarrow> well_formed b \<Longrightarrow> well_formed c \<Longrightarrow> \<exists>j. ds_justification a b c = Inr j"
  "well_formed a \<Longrightarrow> well_formed b \<Longrightarrow> \<exists>j. simp_justification a b = Inr j"
  "well_formed a \<Longrightarrow> well_formed b \<Longrightarrow> well_formed c \<Longrightarrow> \<exists>j. conj_justification a b c = Inr j"
  "well_formed a \<Longrightarrow> well_formed b \<Longrightarrow> well_formed c \<Longrightarrow> \<exists>j. res_justification a b c = Inr j"
  "well_formed a \<Longrightarrow> well_formed b \<Longrightarrow> \<exists>j. be_justification a b = Inr j"
  unfolding mp_justification_def mt_justification_def hs_justification_def ds_justification_def
    simp_justification_def conj_justification_def res_justification_def be_justification_def
  by (rule fstring_Inr, auto dest: str_expr_Inr)+

subsection \<open>Modus Ponens\<close>

lemma mp_fact_step:
  assumes "well_formed impl" and "well_formed consequent" and "well_formed fct"
  shows "sound_step kb (mp_fact kb impl antecedent consequent fct)"
proof (rule sound_step_emit_or_skip)
  show "(\<exists>x j. well_formed x \<and>
          (\<forall>st. mp_fact kb impl antecedent consequent fct st = emit kb x (Inr j) st)) \<or>
        (\<forall>st. mp_fact kb impl antecedent consequent fct st = Inr st)"
  proof (cases "mp_match antecedent fct")
    case False
    then show ?thesis by (simp add: mp_fact_def)
  next
    case m: True
    show ?thesis
    proof (cases "is_Atom antecedent \<and> is_Atom fct")
      case True
      obtain ok b where mt: "matches antecedent fct Map.empty = (ok, b)"
        by (cases "matches antecedent fct Map.empty")
      show ?thesis
      proof (cases ok)
        case False
        with m True mt show ?thesis by (simp add: mp_fact_def)
      next
        case ok: True
        have w: "well_formed (substitute consequent b)"
          using assms(2) by (simp add: well_formed_substitute)
        from justification_Inr(1)[OF assms(3) assms(1) w] obtain j where
          "mp_justification fct impl (substitute consequent b) = Inr j" ..
        with m True mt ok have
          "\<forall>st. mp_fact kb impl antecedent consequent fct st =
             emit kb (substitute consequent b) (Inr j) st"
          by (simp add: mp_fact_def Let_def)
        with w show ?thesis by blast
      qed
    next
      case na: False
      then have False: "(is_Atom antecedent \<and> is_Atom fct) = False" by simp
      show ?thesis
      proof (cases "antecedent = fct")
        case True
        from justification_Inr(1)[OF assms(3) assms(1) assms(2)] obtain j where
          "mp_justification fct impl consequent = Inr j" ..
        with m False True have
          "\<forall>st. mp_fact kb impl antecedent consequent fct st = emit kb consequent (Inr j) st"
          by (simp add: mp_fact_def)
        with assms(2) show ?thesis by blast
      next
        case ne: False
        with m na show ?thesis by (auto simp: mp_fact_def)
      qed
    qed
  qed
qed

lemma implication_operands:
  assumes "well_formed_kb kb" and "impl \<in> set (filter (is_op oper) kb)"
    and "oper = IMPLIES \<or> oper = IFF"
  shows "well_formed impl \<and> index (operands impl) 0 = Inr (operands impl ! 0) \<and>
      index (operands impl) 1 = Inr (operands impl ! 1) \<and>
      well_formed (operands impl ! 0) \<and> well_formed (operands impl ! 1)"
proof -
  from assms(2) have i: "impl \<in> set kb" "is_op oper impl" by simp_all
  from i(2) obtain ops where ops: "impl = LogicalExpression (Some oper) ops"
    by (rule is_op_cases)
  from assms(1) i(1) have w: "well_formed impl" by (simp add: well_formed_kb_def)
  with ops assms(3) have l: "2 \<le> length ops" by auto
  then have l0: "0 < length ops" and l1: "1 < length ops" by linarith+
  then have "ops ! 0 \<in> set ops" "ops ! 1 \<in> set ops" by (simp_all only: nth_mem)
  with w ops have e: "well_formed (ops ! 0)" "well_formed (ops ! 1)" by simp_all
  have "index ops 0 = Inr (ops ! 0)" "index ops 1 = Inr (ops ! 1)"
    using l0 l1 by (simp_all only: index_def if_True)
  with w e ops show ?thesis by simp
qed

lemma modus_ponens_step:
  assumes "well_formed_kb kb"
  shows "\<exists>f. sound_step kb f \<and> (\<forall>nf. modus_ponens kb nf = f ([], nf))"
proof -
  let ?facts = "filter (\<lambda>item. is_Atom item \<or> \<not> is_op IMPLIES item) kb"
  let ?body = "\<lambda>impl st.
          case index (operands impl) 0 of Inl e \<Rightarrow> Inl e | Inr antecedent \<Rightarrow>
          case index (operands impl) 1 of Inl e \<Rightarrow> Inl e | Inr consequent \<Rightarrow>
            for_each (mp_fact kb impl antecedent consequent) ?facts st"
  have "sound_step kb (for_each ?body (filter (is_op IMPLIES) kb))"
  proof (rule sound_step_for_each)
    fix impl assume "impl \<in> set (filter (is_op IMPLIES) kb)"
    from implication_operands[OF assms this] have
      w: "well_formed impl" "well_formed (operands impl ! 1)" and
      i: "index (operands impl) 0 = Inr (operands impl ! 0)"
         "index (operands impl) 1 = Inr (operands impl ! 1)"
      by simp_all
    have "sound_step kb (for_each (mp_fact kb impl (operands impl ! 0) (operands impl ! 1)) ?facts)"
    proof (rule sound_step_for_each)
      fix fct assume "fct \<in> set ?facts"
      with assms have "well_formed fct" by (simp add: well_formed_kb_def)
      with w show "sound_step kb (mp_fact kb impl (operands impl ! 0) (operands impl ! 1) fct)"
        by (simp add: mp_fact_step)
    qed
    then show "sound_step kb (?body impl)"
      by (rule sound_step_cong[rotated]) (simp only: i sum.case)
  qed
  moreover have "\<forall>nf. modus_ponens kb nf = for_each ?body (filter (is_op IMPLIES) kb) ([], nf)"
    by (simp add: modus_ponens_def Let_def)
  ultimately show ?thesis by blast
qed

lemma negation_operand:
  assumes "well_formed ng" and "is_op NOT ng"
  shows "index (operands ng) 0 = Inr (operands ng ! 0) \<and> well_formed (operands ng ! 0)"
proof -
  from assms(2) obtain ops where ops: "ng = LogicalExpression (Some NOT) ops"
    by (rule is_op_cases)
  with assms(1) obtain x rest where x: "ops = x # rest" by (cases ops) auto
  with assms(1) ops show ?thesis by (simp add: index_def)
qed

lemma operand_well_formed:
  assumes "well_formed e" and "is_op oper e" and "x \<in> set (operands e)"
  shows "well_formed x"
proof -
  from assms(2) obtain ops where "e = LogicalExpression (Some oper) ops"
    by (rule is_op_cases)
  with assms(1,3) show ?thesis by simp
qed

subsection \<open>Modus Tollens\<close>

lemma mt_neg_step:
  assumes "well_formed impl" and "well_formed antecedent" and "well_formed ng" and "is_op NOT ng"
  shows "sound_step kb (mt_neg kb impl antecedent consequent ng)"
proof (rule sound_step_emit_or_skip)
  let ?new = "LogicalExpression (Some NOT) [antecedent]"
  have w: "well_formed ?new" using assms(2) by simp
  from justification_Inr(2)[OF assms(3) assms(1) w] obtain j where
    j: "mt_justification ng impl ?new = Inr j" ..
  from negation_operand[OF assms(3,4)] have
    i: "index (operands ng) 0 = Inr (operands ng ! 0)" by simp
  show "(\<exists>x j. well_formed x \<and>
          (\<forall>st. mt_neg kb impl antecedent consequent ng st = emit kb x (Inr j) st)) \<or>
        (\<forall>st. mt_neg kb impl antecedent consequent ng st = Inr st)"
  proof (cases "mp_match consequent (operands ng ! 0)")
    case True
    with i j have "\<forall>st. mt_neg kb impl antecedent consequent ng st = emit kb ?new (Inr j) st"
      by (simp add: mt_neg_def Let_def)
    with w show ?thesis by blast
  next
    case False
    with i show ?thesis by (simp add: mt_neg_def)
  qed
qed

lemma modus_tollens_step:
  assumes "well_formed_kb kb"
  shows "\<exists>f. sound_step kb f \<and> (\<forall>nf. modus_tollens kb nf = f ([], nf))"
proof -
  let ?negs = "filter (is_op NOT) kb"
  let ?body = "\<lambda>impl st.
          case index (operands impl) 0 of Inl e \<Rightarrow> Inl e | Inr antecedent \<Rightarrow>
          case index (operands impl) 1 of Inl e \<Rightarrow> Inl e | Inr consequent \<Rightarrow>
            for_each (mt_neg kb impl antecedent consequent) ?negs st"
  have "sound_step kb (for_each ?body (filter (is_op IMPLIES) kb))"
  proof (rule sound_step_for_each)
    fix impl assume "impl \<in> set (filter (is_op IMPLIES) kb)"
    from implication_operands[OF assms this] have
      w: "well_formed impl" "well_formed (operands impl ! 0)" and
      i: "index (operands impl) 0 = Inr (operands impl ! 0)"
         "index (operands impl) 1 = Inr (operands impl ! 1)"
      by simp_all
    have "sound_step kb (for_each (mt_neg kb impl (operands impl ! 0) (operands impl ! 1)) ?negs)"
    proof (rule sound_step_for_each)
      fix ng assume "ng \<in> set ?negs"
      with assms have "well_formed ng" "is_op NOT ng" by (simp_all add: well_formed_kb_def)
      with w show "sound_step kb (mt_neg kb impl (operands impl ! 0) (operands impl ! 1) ng)"
        by (simp add: mt_neg_step)
    qed
    then show "sound_step kb (?body impl)"
      by (rule sound_step_cong[rotated]) (simp only: i sum.case)
  qed
  moreover have "\<forall>nf. modus_tollens kb nf = for_each ?body (filter (is_op IMPLIES) kb) ([], nf)"
    by (simp add: modus_tollens_def Let_def)
  ultimately show ?thesis by blast
qed

subsection \<open>Hypothetical Syllogism\<close>

lemma hs_pair_step:
  assumes "well_formed_kb kb" and "impl1 \<in> set (filter (is_op IMPLIES) kb)"
    and "impl2 \<in> set (filter (is_op IMPLIES) kb)"
  shows "sound_step kb (hs_pair kb impl1 impl2)"
proof (rule sound_step_emit_or_skip)
  from implication_operands[OF assms(1,2)] have
    w1: "well_formed impl1" "well_formed (operands impl1 ! 0)" and
    i1: "index (operands impl1) 0 = Inr (operands impl1 ! 0)"
        "index (operands impl1) 1 = Inr (operands impl1 ! 1)"
    by simp_all
  from implication_operands[OF assms(1,3)] have
    w2: "well_formed impl2" "well_formed (operands impl2 ! 1)" and
    i2: "index (operands impl2) 0 = Inr (operands impl2 ! 0)"
        "index (operands impl2) 1 = Inr (operands impl2 ! 1)"
    by simp_all
  let ?new = "LogicalExpression (Some IMPLIES) [operands impl1 ! 0, operands impl2 ! 1]"
  have w: "well_formed ?new" using w1(2) w2(2) by simp
  from justification_Inr(3)[OF w1(1) w2(1) w] obtain j where
    j: "hs_justification impl1 impl2 ?new = Inr j" ..
  show "(\<exists>x j. well_formed x \<and> (\<forall>st. hs_pair kb impl1 impl2 st = emit kb x (Inr j) st)) \<or>
        (\<forall>st. hs_pair kb impl1 impl2 st = Inr st)"
  proof (cases "impl1 \<noteq> impl2 \<and> operands impl1 ! 1 = operands impl2 ! 0")
    case True
    then have "\<forall>st. hs_pair kb impl1 impl2 st = emit kb ?new (Inr j) st"
      unfolding hs_pair_def by (simp only: i1 i2 sum.case Let_def j if_True if_False simp_thms)
    with w show ?thesis by blast
  next
    case False
    then have "\<forall>st. hs_pair kb impl1 impl2 st = Inr st"
      unfolding hs_pair_def by (simp only: i1 i2 sum.case) auto
    then show ?thesis by blast
  qed
qed

lemma hypothetical_syllogism_step:
  assumes "well_formed_kb kb"
  shows "\<exists>f. sound_step kb f \<and> (\<forall>nf. hypothetical_syllogism kb nf = f ([], nf))"
proof -
  let ?impls = "filter (is_op IMPLIES) kb"
  let ?body = "\<lambda>impl1 st. for_each (hs_pair kb impl1) ?impls st"
  have "sound_step kb (for_each ?body ?impls)"
  proof (rule sound_step_for_each)
    fix impl1 assume a: "impl1 \<in> set ?impls"
    have "sound_step kb (for_each (hs_pair kb impl1) ?impls)"
      by (rule sound_step_for_each) (rule hs_pair_step[OF assms a])
    then show "sound_step kb (?body impl1)" .
  qed
  moreover have "\<forall>nf. hypothetical_syllogism kb nf = for_each ?body ?impls ([], nf)"
    by (simp add: hypothetical_syllogism_def Let_def)
  ultimately show ?thesis by blast
qed

subsection \<open>Simplification\<close>

lemma simplification_step:
  assumes "well_formed_kb kb"
  shows "\<exists>f. sound_step kb f \<and> (\<forall>nf. simplification kb nf = f ([], nf))"
proof -
  let ?cnjs = "filter (is_op AND) kb"
  let ?body = "\<lambda>cnj st.
          for_each (\<lambda>operand st. emit kb operand (simp_justification cnj operand) st)
            (operands cnj) st"
  have "sound_step kb (for_each ?body ?cnjs)"
  proof (rule sound_step_for_each)
    fix cnj assume "cnj \<in> set ?cnjs"
    with assms have c: "well_formed cnj" "is_op AND cnj" by (simp_all add: well_formed_kb_def)
    have "sound_step kb (for_each (\<lambda>operand st. emit kb operand (simp_justification cnj operand) st)
            (operands cnj))"
    proof (rule sound_step_for_each)
      fix operand assume "operand \<in> set (operands cnj)"
      with c have w: "well_formed operand" by (rule operand_well_formed)
      from justification_Inr(5)[OF c(1) w] obtain j where
        "simp_justification cnj operand = Inr j" ..
      then have "\<And>st. emit kb operand (simp_justification cnj operand) st =
          emit kb operand (Inr j) st" by simp
      then show "sound_step kb (\<lambda>st. emit kb operand (simp_justification cnj operand) st)"
        using sound_step_emit[OF w] by (rule sound_step_cong)
    qed
    then show "sound_step kb (?body cnj)" .
  qed
  moreover have "\<forall>nf. simplification kb nf = for_each ?body ?cnjs ([], nf)"
    by (simp add: simplification_def Let_def)
  ultimately show ?thesis by blast
qed

subsection \<open>Biconditional Elimination\<close>

lemma be_iff_step:
  assumes "well_formed_kb kb" and "bic \<in> set (filter (is_op IFF) kb)"
  shows "sound_step kb (be_iff kb bic)"
proof -
  from implication_operands[OF assms(1,2)] have
    w: "well_formed bic" "well_formed (operands bic ! 0)" "well_formed (operands bic ! 1)" and
    i: "index (operands bic) 0 = Inr (operands bic ! 0)"
       "index (operands bic) 1 = Inr (operands bic ! 1)"
    by simp_all
  let ?i1 = "LogicalExpression (Some IMPLIES) [operands bic ! 0, operands bic ! 1]"
  let ?i2 = "LogicalExpression (Some IMPLIES) [operands bic ! 1, operands bic ! 0]"
  have w1: "well_formed ?i1" and w2: "well_formed ?i2" using w(2,3) by simp_all
  from justification_Inr(8)[OF w(1) w1] obtain j1 where j1: "be_justification bic ?i1 = Inr j1" ..
  from justification_Inr(8)[OF w(1) w2] obtain j2 where j2: "be_justification bic ?i2 = Inr j2" ..
  have "sound_step kb (\<lambda>st. case emit kb ?i1 (Inr j1) st of Inl e \<Rightarrow> Inl e
      | Inr st' \<Rightarrow> emit kb ?i2 (Inr j2) st')"
    using sound_step_emit[OF w1] sound_step_emit[OF w2] by (rule sound_step_bind)
  moreover have "\<And>st. be_iff kb bic st = (case emit kb ?i1 (Inr j1) st of Inl e \<Rightarrow> Inl e
      | Inr st' \<Rightarrow> emit kb ?i2 (Inr j2) st')"
    unfolding be_iff_def by (simp only: i sum.case Let_def j1 j2)
  ultimately show ?thesis by (rule sound_step_cong[rotated])
qed

lemma biconditional_elimination_step:
  assumes "well_formed_kb kb"
  shows "\<exists>f. sound_step kb f \<and> (\<forall>nf. biconditional_elimination kb nf = f ([], nf))"
proof -
  have "sound_step kb (for_each (be_iff kb) (filter (is_op IFF) kb))"
    by (rule sound_step_for_each) (rule be_iff_step[OF assms])
  moreover have "\<forall>nf. biconditional_elimination kb nf =
      for_each (be_iff kb) (filter (is_op IFF) kb) ([], nf)"
    by (simp add: biconditional_elimination_def Let_def)
  ultimately show ?thesis by blast
qed

lemma enumerate_member: "p \<in> set (List.enumerate n xs) \<Longrightarrow> snd p \<in> set xs"
proof -
  assume "p \<in> set (List.enumerate n xs)"
  then have "snd p \<in> set (map snd (List.enumerate n xs))"
    by (simp del: map_snd_enumerate)
  then show ?thesis by simp
qed

subsection \<open>Disjunctive Syllogism\<close>

lemma ds_neg_step:
  assumes "well_formed dsj" and "is_op OR dsj" and "well_formed ng" and "is_op NOT ng"
  shows "sound_step kb (ds_neg kb dsj ng)"
proof -
  from negation_operand[OF assms(3,4)] have
    i: "index (operands ng) 0 = Inr (operands ng ! 0)" by simp
  let ?inner = "\<lambda>i. (\<lambda>(j, other) st.
                  if i \<noteq> j then emit kb other (ds_justification dsj ng other) st
                  else Inr st)"
  let ?outer = "\<lambda>(i, operand) st.
            if operand = operands ng ! 0 then
              for_each (?inner i) (List.enumerate 0 (operands dsj)) st
            else Inr st"
  have inner: "sound_step kb (?inner i q)" if "q \<in> set (List.enumerate 0 (operands dsj))" for i q
  proof -
    obtain j other where q: "q = (j, other)" by (cases q)
    with that have "other \<in> set (operands dsj)" using enumerate_member by fastforce
    with assms(1,2) have w: "well_formed other" by (rule operand_well_formed)
    from justification_Inr(4)[OF assms(1,3) w] obtain t where
      t: "ds_justification dsj ng other = Inr t" ..
    show ?thesis
    proof (rule sound_step_emit_or_skip, cases "i \<noteq> j")
      case True
      with q t have "\<forall>st. ?inner i q st = emit kb other (Inr t) st" by simp
      with w show "(\<exists>x j. well_formed x \<and> (\<forall>st. ?inner i q st = emit kb x (Inr j) st)) \<or>
          (\<forall>st. ?inner i q st = Inr st)" by blast
    next
      case False
      with q show "(\<exists>x j. well_formed x \<and> (\<forall>st. ?inner i q st = emit kb x (Inr j) st)) \<or>
          (\<forall>st. ?inner i q st = Inr st)" by simp
    qed
  qed
  have "sound_step kb (for_each ?outer (List.enumerate 0 (operands dsj)))"
  proof (rule sound_step_for_each)
    fix p assume "p \<in> set (List.enumerate 0 (operands dsj))"
    obtain i operand where p: "p = (i, operand)" by (cases p)
    show "sound_step kb (?outer p)"
    proof (cases "operand = operands ng ! 0")
      case True
      have "sound_step kb (for_each (?inner i) (List.enumerate 0 (operands dsj)))"
        by (rule sound_step_for_each) (rule inner)
      moreover have "\<And>st. ?outer p st = for_each (?inner i) (List.enumerate 0 (operands dsj)) st"
        using p True by simp
      ultimately show ?thesis by (rule sound_step_cong[rotated])
    next
      case False
      with p have "\<And>st. ?outer p st = Inr st" by simp
      then show ?thesis using sound_step_skip by (rule sound_step_cong)
    qed
  qed
  moreover have "\<And>st. ds_neg kb dsj ng st = for_each ?outer (List.enumerate 0 (operands dsj)) st"
    unfolding ds_neg_def by (simp only: i sum.case)
  ultimately show ?thesis by (rule sound_step_cong[rotated])
qed

lemma disjunctive_syllogism_step:
  assumes "well_formed_kb kb"
  shows "\<exists>f. sound_step kb f \<and> (\<forall>nf. disjunctive_syllogism kb nf = f ([], nf))"
proof -
  let ?negs = "filter (is_op NOT) kb"
  let ?body = "\<lambda>dsj st. for_each (ds_neg kb dsj) ?negs st"
  have "sound_step kb (for_each ?body (filter (is_op OR) kb))"
  proof (rule sound_step_for_each)
    fix dsj assume "dsj \<in> set (filter (is_op OR) kb)"
    with assms have d: "well_formed dsj" "is_op OR dsj" by (simp_all add: well_formed_kb_def)
    have "sound_step kb (for_each (ds_neg kb dsj) ?negs)"
    proof (rule sound_step_for_each)
      fix ng assume "ng \<in> set ?negs"
      with assms have "well_formed ng" "is_op NOT ng" by (simp_all add: well_formed_kb_def)
      with d show "sound_step kb (ds_neg kb dsj ng)" by (simp add: ds_neg_step)
    qed
    then show "sound_step kb (?body dsj)" .
  qed
  moreover have "\<forall>nf. disjunctive_syllogism kb nf =
      for_each ?body (filter (is_op OR) kb) ([], nf)"
    by (simp add: disjunctive_syllogism_def Let_def)
  ultimately show ?thesis by blast
qed

subsection \<open>Conjunction and Addition\<close>

lemma conjunction_step:
  assumes "well_formed_kb kb"
  shows "\<exists>f. sound_step kb f \<and> (\<forall>nf. conjunction kb nf = f ([], nf))"
proof (cases "length (filter is_Atom kb) > 20")
  case True
  then have "\<forall>nf. conjunction kb nf = Inr ([], nf)" by (simp add: conjunction_def)
  with sound_step_skip[of kb] show ?thesis by blast
next
  case False
  let ?facts = "filter is_Atom kb"
  let ?inner = "\<lambda>fact1. (\<lambda>fact2 st.
                (let new_fact = LogicalExpression (Some AND) [fact1, fact2] in
                 emit kb new_fact (conj_justification fact1 fact2 new_fact) st))"
  let ?outer = "\<lambda>(i, fact1) st. for_each (?inner fact1) (drop (i + 1) ?facts) st"
  have w: "well_formed x" if "x \<in> set ?facts" for x
    using that assms by (simp add: well_formed_kb_def)
  have "sound_step kb (for_each ?outer (List.enumerate 0 ?facts))"
  proof (rule sound_step_for_each)
    fix p assume pm: "p \<in> set (List.enumerate 0 ?facts)"
    obtain i fact1 where p: "p = (i, fact1)" by (cases p)
    with pm have "fact1 \<in> set ?facts" using enumerate_member by fastforce
    then have w1: "well_formed fact1" by (rule w)
    have "sound_step kb (for_each (?inner fact1) (drop (i + 1) ?facts))"
    proof (rule sound_step_for_each)
      fix fact2 assume "fact2 \<in> set (drop (i + 1) ?facts)"
      then have "fact2 \<in> set ?facts" by (rule in_set_dropD)
      then have w2: "well_formed fact2" by (rule w)
      let ?new = "LogicalExpression (Some AND) [fact1, fact2]"
      have wn: "well_formed ?new" using w1 w2 by simp
      from justification_Inr(6)[OF w1 w2 wn] obtain j where
        "conj_justification fact1 fact2 ?new = Inr j" ..
      then have "\<And>st. ?inner fact1 fact2 st = emit kb ?new (Inr j) st"
        by (simp add: Let_def)
      then show "sound_step kb (?inner fact1 fact2)"
        using sound_step_emit[OF wn] by (rule sound_step_cong)
    qed
    moreover have "\<And>st. ?outer p st = for_each (?inner fact1) (drop (i + 1) ?facts) st"
      using p by simp
    ultimately show "sound_step kb (?outer p)" by (rule sound_step_cong[rotated])
  qed
  moreover have "\<forall>nf. conjunction kb nf = for_each ?outer (List.enumerate 0 ?facts) ([], nf)"
    using False by (simp add: conjunction_def Let_def)
  ultimately show ?thesis by blast
qed

lemma addition_step:
  "\<exists>f. sound_step kb f \<and> (\<forall>nf. addition kb nf = f ([], nf))"
proof -
  have "\<forall>nf. addition kb nf = Inr ([], nf)" by (simp add: addition_def)
  with sound_step_skip[of kb] show ?thesis by blast
qed

subsection \<open>Resolution\<close>

lemma are_complementary_Inr:
  assumes "well_formed op1" and "well_formed op2"
  shows "\<exists>c. are_complementary op1 op2 = Inr c"
proof (cases "is_op NOT op1")
  case True
  from negation_operand[OF assms(1) True] True show ?thesis
    by (simp add: are_complementary_def)
next
  case n1: False
  show ?thesis
  proof (cases "is_op NOT op2")
    case True
    from negation_operand[OF assms(2) True] True n1 show ?thesis
      by (simp add: are_complementary_def)
  next
    case False
    with n1 show ?thesis by (auto simp: are_complementary_def)
  qed
qed

lemma res_literals_step:
  assumes "well_formed disj1" and "is_op OR disj1" and "well_formed disj2" and "is_op OR disj2"
    and "op1 \<in> set (operands disj1)" and "op2 \<in> set (operands disj2)"
  shows "sound_step kb (res_literals kb disj1 disj2 op1 op2)"
proof (rule sound_step_emit_or_skip)
  let ?r1 = "filter (\<lambda>x. x \<noteq> op1) (operands disj1)"
  let ?r2 = "filter (\<lambda>x. x \<noteq> op2) (operands disj2)"
  let ?all = "?r1 @ ?r2"
  let ?new = "if length ?all = 1 then ?all ! 0 else LogicalExpression (Some OR) ?all"
  have w1: "well_formed op1" using assms(1,2,5) by (rule operand_well_formed)
  have w2: "well_formed op2" using assms(3,4,6) by (rule operand_well_formed)
  from are_complementary_Inr[OF w1 w2] obtain c where c: "are_complementary op1 op2 = Inr c" ..
  have wall: "well_formed x" if "x \<in> set ?all" for x
  proof -
    from that have "x \<in> set (operands disj1) \<or> x \<in> set (operands disj2)" by auto
    then show ?thesis
      using operand_well_formed[OF assms(1,2)] operand_well_formed[OF assms(3,4)] by blast
  qed
  have wn: "well_formed ?new"
  proof (cases "length ?all = 1")
    case True
    then have "?all ! 0 \<in> set ?all" by (simp only: nth_mem zero_less_one)
    then have "well_formed (?all ! 0)" by (rule wall)
    with True show ?thesis by simp
  next
    case False
    have "well_formed (LogicalExpression (Some OR) ?all)" using wall by simp
    with False show ?thesis by simp
  qed
  from justification_Inr(7)[OF assms(1,3) wn] obtain j where
    j: "res_justification disj1 disj2 ?new = Inr j" ..
  show "(\<exists>x j. well_formed x \<and> (\<forall>st. res_literals kb disj1 disj2 op1 op2 st = emit kb x (Inr j) st)) \<or>
        (\<forall>st. res_literals kb disj1 disj2 op1 op2 st = Inr st)"
  proof (cases "c \<and> \<not> (?r1 = [] \<and> ?r2 = [])")
    case True
    then have cT: "are_complementary op1 op2 = Inr True" and
      ne: "(?r1 = [] \<and> ?r2 = []) = False"
      using c by simp_all
    have "\<forall>st. res_literals kb disj1 disj2 op1 op2 st = emit kb ?new (Inr j) st"
      unfolding res_literals_def Let_def
      by (simp only: cT sum.case bool.case ne if_False j simp_thms)
    with wn show ?thesis by blast
  next
    case False
    then consider "are_complementary op1 op2 = Inr False"
      | "are_complementary op1 op2 = Inr True" "(?r1 = [] \<and> ?r2 = []) = True"
      using c by (cases c) auto
    then have "\<forall>st. res_literals kb disj1 disj2 op1 op2 st = Inr st"
    proof cases
      case 1
      then show ?thesis
        unfolding res_literals_def by (simp only: sum.case bool.case simp_thms)
    next
      case 2
      then show ?thesis
        unfolding res_literals_def Let_def
        by (simp only: sum.case bool.case if_True simp_thms)
    qed
    then show ?thesis by blast
  qed
qed

lemma res_pair_step:
  assumes "well_formed disj1" and "is_op OR disj1" and "well_formed disj2" and "is_op OR disj2"
  shows "sound_step kb (res_pair kb disj1 disj2)"
proof (cases "disj1 = disj2")
  case True
  then have "\<And>st. res_pair kb disj1 disj2 st = Inr st" by (simp add: res_pair_def)
  then show ?thesis using sound_step_skip by (rule sound_step_cong)
next
  case False
  let ?body = "\<lambda>op1 st. for_each (res_literals kb disj1 disj2 op1) (operands disj2) st"
  have "sound_step kb (for_each ?body (operands disj1))"
  proof (rule sound_step_for_each)
    fix op1 assume o1: "op1 \<in> set (operands disj1)"
    have "sound_step kb (for_each (res_literals kb disj1 disj2 op1) (operands disj2))"
      by (rule sound_step_for_each) (rule res_literals_step[OF assms o1])
    then show "sound_step kb (?body op1)" .
  qed
  moreover have "\<And>st. res_pair kb disj1 disj2 st = for_each ?body (operands disj1) st"
    using False by (simp add: res_pair_def)
  ultimately show ?thesis by (rule sound_step_cong[rotated])
qed

lemma resolution_step:
  assumes "well_formed_kb kb"
  shows "\<exists>f. sound_step kb f \<and> (\<forall>nf. resolution kb nf = f ([], nf))"
proof -
  let ?disjs = "filter (is_op OR) kb"
  let ?body = "\<lambda>disj1 st. for_each (res_pair kb disj1) ?disjs st"
  have d: "well_formed x \<and> is_op OR x" if "x \<in> set ?disjs" for x
    using that assms by (simp add: well_formed_kb_def)
  have "sound_step kb (for_each ?body ?disjs)"
  proof (rule sound_step_for_each)
    fix disj1 assume a: "disj1 \<in> set ?disjs"
    have "sound_step kb (for_each (res_pair kb disj1) ?disjs)"
    proof (rule sound_step_for_each)
      fix disj2 assume b: "disj2 \<in> set ?disjs"
      from d[OF a] d[OF b] show "sound_step kb (res_pair kb disj1 disj2)"
        by (simp add: res_pair_step)
    qed
    then show "sound_step kb (?body disj1)" .
  qed
  moreover have "\<forall>nf. resolution kb nf = for_each ?body ?disjs ([], nf)"
    by (simp add: resolution_def Let_def)
  ultimately show ?thesis by blast
qed

subsection \<open>Every rule, and a pass\<close>

lemma rule_apply_step:
  assumes "well_formed_kb kb"
  shows "\<exists>f. sound_step kb f \<and> (\<forall>nf. rule_apply r kb nf = f ([], nf))"
  using assms
  by (cases r)
     (simp_all add: modus_ponens_step modus_tollens_step hypothetical_syllogism_step
        disjunctive_syllogism_step simplification_step conjunction_step addition_step
        resolution_step biconditional_elimination_step)

lemma rule_apply_result:
  assumes "well_formed_kb kb"
  shows "\<exists>new. rule_apply r kb nf = Inr (new, nf @ map fst new) \<and>
      fst ` set new = solo_facts r kb - set nf \<and> (\<forall>x \<in> fst ` set new. well_formed x)"
proof -
  from rule_apply_step[OF assms] obtain f where
    f: "sound_step kb f" and a: "\<And>nf. rule_apply r kb nf = f ([], nf)"
    by blast
  from f obtain new new0 where
    n: "f ([], nf) = Inr (new, nf @ map fst new)" and
    n0: "f ([], []) = Inr (new0, map fst new0)" and
    d: "fst ` set new = fst ` set new0 - set nf" and
    w: "\<forall>x \<in> fst ` set new. well_formed x"
    by (rule sound_step_result)
  have "rule_apply r kb [] = Inr (new0, map fst new0)"
    using n0 a[of "[]"] by simp
  then have s: "solo_facts r kb = fst ` set new0"
    by (simp add: solo_facts_def)
  from d s have u: "fst ` set new = solo_facts r kb - set nf" by simp
  have e: "rule_apply r kb nf = Inr (new, nf @ map fst new)"
    using n a[of nf] by simp
  from e u w show ?thesis by blast
qed

lemma apply_rules_loop_result:
  assumes "well_formed_kb kb"
  shows "\<exists>new. apply_rules_loop rs kb (d, nf) = Inr (d @ new, nf @ map fst new) \<and>
      fst ` set new = (\<Union>r \<in> set rs. solo_facts r kb) - set nf \<and>
      (\<forall>x \<in> fst ` set new. well_formed x)"
proof (induction rs arbitrary: d nf)
  case Nil
  show ?case by (rule exI[of _ "[]"]) simp
next
  case (Cons r rs)
  from rule_apply_result[OF assms, of r nf] obtain n1 where
    n1: "rule_apply r kb nf = Inr (n1, nf @ map fst n1)"
        "fst ` set n1 = solo_facts r kb - set nf" "\<forall>x \<in> fst ` set n1. well_formed x"
    by blast
  from Cons.IH[of "d @ n1" "nf @ map fst n1"] obtain n2 where
    n2: "apply_rules_loop rs kb (d @ n1, nf @ map fst n1) =
           Inr ((d @ n1) @ n2, (nf @ map fst n1) @ map fst n2)"
        "fst ` set n2 = (\<Union>r \<in> set rs. solo_facts r kb) - set (nf @ map fst n1)"
        "\<forall>x \<in> fst ` set n2. well_formed x"
    by blast
  have "apply_rules_loop (r # rs) kb (d, nf) = Inr (d @ (n1 @ n2), nf @ map fst (n1 @ n2))"
    using n1(1) n2(1) by simp
  moreover have "fst ` set (n1 @ n2) = (\<Union>r \<in> set (r # rs). solo_facts r kb) - set nf"
  proof -
    have "fst ` set (n1 @ n2) = fst ` set n1 \<union> fst ` set n2" by (simp add: image_Un)
    also have "\<dots> = (solo_facts r kb - set nf) \<union>
        ((\<Union>r \<in> set rs. solo_facts r kb) - (set nf \<union> (solo_facts r kb - set nf)))"
      using n1(2) n2(2) by simp
    also have "\<dots> = (solo_facts r kb \<union> (\<Union>r \<in> set rs. solo_facts r kb)) - set nf"
      by blast
    also have "\<dots> = (\<Union>r \<in> set (r # rs). solo_facts r kb) - set nf" by simp
    finally show ?thesis .
  qed
  moreover have "\<forall>x \<in> fst ` set (n1 @ n2). well_formed x"
  proof
    fix x assume "x \<in> fst ` set (n1 @ n2)"
    then have "x \<in> fst ` set n1 \<or> x \<in> fst ` set n2" by (simp add: image_Un)
    with n1(3) n2(3) show "well_formed x" by blast
  qed
  ultimately show ?case by blast
qed

lemma apply_all_rules_result:
  assumes "well_formed_kb kb"
  shows "\<exists>new. apply_all_rules rs kb = Inr new \<and>
      fst ` set new = (\<Union>r \<in> set rs. solo_facts r kb) \<and>
      (\<forall>x \<in> fst ` set new. well_formed x)"
proof -
  from apply_rules_loop_result[OF assms, of rs "[]" "[]"] obtain new where
    l: "apply_rules_loop rs kb ([], []) = Inr ([] @ new, [] @ map fst new)" and
    u: "fst ` set new = (\<Union>r \<in> set rs. solo_facts r kb) - set []" and
    w: "\<forall>x \<in> fst ` set new. well_formed x"
    by blast
  from l have a: "apply_all_rules rs kb = Inr new" by (simp add: apply_all_rules_def)
  from u have b: "fst ` set new = (\<Union>r \<in> set rs. solo_facts r kb)" by simp
  from a b w show ?thesis by blast
qed

subsection \<open>Totality of infer_all on well-formed knowledge bases\<close>

lemma add_derived_well_formed:
  "well_formed_kb (knowledge_base s) \<Longrightarrow> \<forall>x \<in> fst ` set d. well_formed x \<Longrightarrow>
     well_formed_kb (knowledge_base (add_derived s d i))"
  by (auto simp: well_formed_kb_def add_derived_kb_set)

lemma infer_loop_total:
  "well_formed_kb (knowledge_base s) \<Longrightarrow>
     \<exists>s' n. infer_loop s i = Inr (s', n) \<and> well_formed_kb (knowledge_base s')"
proof (induction s i rule: infer_loop.induct)
  case (1 s iteration)
  show ?case
  proof (cases "iteration < max_iterations s")
    case False
    with "1.prems" show ?thesis by (subst infer_loop.simps) simp
  next
    case lt: True
    from apply_all_rules_result[OF "1.prems", of "rule_manager s"] obtain d where
      d: "apply_all_rules (rule_manager s) (knowledge_base s) = Inr d"
         "\<forall>x \<in> fst ` set d. well_formed x"
      by blast
    show ?thesis
    proof (cases "d = []")
      case True
      with lt d(1) "1.prems" show ?thesis by (subst infer_loop.simps) simp
    next
      case False
      have "well_formed_kb (knowledge_base (add_derived s d (iteration + 1)))"
        using "1.prems" d(2) by (rule add_derived_well_formed)
      from "1.IH"[OF lt d(1) False this] lt d(1) False show ?thesis
        by (subst infer_loop.simps) simp
    qed
  qed
qed

lemma for_each_Inr:
  "(\<And>x st. x \<in> set xs \<Longrightarrow> \<exists>st'. body x st = Inr st') \<Longrightarrow> \<exists>st'. for_each body xs st = Inr st'"
proof (induction xs arbitrary: st)
  case Nil
  then show ?case by simp
next
  case (Cons x xs)
  from Cons.prems[of x st] obtain st1 where "body x st = Inr st1" by auto
  moreover from Cons.IH[of st1] Cons.prems obtain st2 where "for_each body xs st1 = Inr st2"
    by auto
  ultimately show ?case by simp
qed

lemma detect_contradictions_total:
  assumes "well_formed_kb (knowledge_base s)"
  shows "\<exists>s'. detect_contradictions s = Inr s'"
proof -
  let ?atoms = "filter is_Atom (knowledge_base s)"
  have "\<exists>found. for_each (detect_step ?atoms) (filter (is_op NOT) (knowledge_base s)) [] = Inr found"
  proof (rule for_each_Inr)
    fix ng st assume "ng \<in> set (filter (is_op NOT) (knowledge_base s))"
    with assms have w: "well_formed ng" and n: "is_op NOT ng"
      by (simp_all add: well_formed_kb_def)
    from negation_operand[OF w n] have
      i: "index (operands ng) 0 = Inr (operands ng ! 0)" and w0: "well_formed (operands ng ! 0)"
      by simp_all
    have "\<exists>t. contradiction_text (operands ng ! 0) ng = Inr t"
      unfolding contradiction_text_def
      by (rule fstring_Inr) (use w w0 in \<open>auto dest: str_expr_Inr\<close>)
    then obtain t where "contradiction_text (operands ng ! 0) ng = Inr t" ..
    with i show "\<exists>st'. detect_step ?atoms ng st = Inr st'"
      by (simp add: detect_step_def)
  qed
  then show ?thesis by (auto simp: detect_contradictions_def Let_def)
qed

section \<open>Parsing a rendered literal\<close>

subsection \<open>strip\<close>

lemma dropWhile_id: "xs \<noteq> [] \<Longrightarrow> \<not> P (hd xs) \<Longrightarrow> dropWhile P xs = xs"
  by (cases xs) simp_all

lemma dropWhile_length_id:
  assumes "length (dropWhile P xs) = length xs"
  shows "dropWhile P xs = xs"
proof -
  have "length (takeWhile P xs) + length (dropWhile P xs) = length xs"
    using takeWhile_dropWhile_id[of P xs] by (metis length_append)
  with assms have "takeWhile P xs = []" by simp
  with takeWhile_dropWhile_id[of P xs] show ?thesis by simp
qed

lemma strip_id:
  assumes "t \<noteq> []" and "\<not> isspace (hd t)" and "\<not> isspace (last t)"
  shows "strip t = t"
proof -
  from assms(1,2) have a: "dropWhile isspace t = t" by (rule dropWhile_id)
  from assms(1) have "rev t \<noteq> []" by simp
  moreover from assms(1,3) have "\<not> isspace (hd (rev t))" by (simp add: hd_rev)
  ultimately have "dropWhile isspace (rev t) = rev t" by (rule dropWhile_id)
  with a show ?thesis by (simp add: strip_def)
qed

lemma trimmed_ends:
  assumes "trimmed t" and "t \<noteq> []"
  shows "\<not> isspace (hd t) \<and> \<not> isspace (last t)"
proof -
  let ?u = "dropWhile isspace t"
  let ?v = "dropWhile isspace (rev ?u)"
  from assms(1) have s: "rev ?v = t" by (simp add: trimmed_def strip_def)
  have l1: "length ?v \<le> length ?u"
    using length_dropWhile_le[of isspace "rev ?u"] by simp
  have l2: "length ?u \<le> length t" by (rule length_dropWhile_le)
  from s have l3: "length ?v = length t" by (metis length_rev)
  from l1 l2 l3 have "length ?u = length t" by simp
  then have d: "?u = t" by (rule dropWhile_length_id)
  with assms(2) have h: "\<not> isspace (hd t)"
    using hd_dropWhile[of isspace t] by simp
  from d l3 have "length (dropWhile isspace (rev t)) = length (rev t)" by simp
  then have "dropWhile isspace (rev t) = rev t" by (rule dropWhile_length_id)
  moreover from assms(2) have "rev t \<noteq> []" by simp
  ultimately have "\<not> isspace (hd (rev t))"
    using hd_dropWhile[of isspace "rev t"] by simp
  with assms(2) have "\<not> isspace (last t)" by (simp add: hd_rev)
  with h show ?thesis by simp
qed

lemma strip_space_Cons: "strip (space # t) = strip t"
  by (simp add: strip_def isspace_def space_def)

lemma ident_char_not_space: "ident_char c \<Longrightarrow> \<not> isspace c"
  by (auto simp: ident_char_def ident_start_def isspace_def)

subsection \<open>join and split\<close>

lemma set_join: "set (join sep os) \<subseteq> set sep \<union> (\<Union>x \<in> set os. set x)"
  by (induction sep os rule: join.induct) auto

lemma join_hd: "x \<noteq> [] \<Longrightarrow> join sep (x # os) \<noteq> [] \<and> hd (join sep (x # os)) = hd x"
  by (cases os) simp_all

lemma join_last:
  "os \<noteq> [] \<Longrightarrow> last os \<noteq> [] \<Longrightarrow>
     join sep os \<noteq> [] \<and> last (join sep os) = last (last os)"
  by (induction sep os rule: join.induct) simp_all

lemma split_single: "sep \<notin> set xs \<Longrightarrow> split sep xs = [xs]"
  by (induction xs) simp_all

lemma split_append: "sep \<notin> set xs \<Longrightarrow> split sep (xs @ sep # ys) = xs # split sep ys"
  by (induction xs) simp_all

lemma split_join:
  "comma \<notin> set pre \<Longrightarrow> \<forall>x \<in> set (x1 # os). comma \<notin> set x \<Longrightarrow>
     split comma (pre @ join [comma, space] (x1 # os)) = (pre @ x1) # map ((#) space) os"
proof (induction os arbitrary: pre x1)
  case Nil
  then show ?case by (simp add: split_single)
next
  case (Cons x2 os)
  have s: "comma \<notin> set [space]" by (simp add: comma_def space_def)
  have "pre @ join [comma, space] (x1 # x2 # os) =
      (pre @ x1) @ comma # ([space] @ join [comma, space] (x2 # os))"
    by simp
  moreover have "comma \<notin> set (pre @ x1)" using Cons.prems by simp
  ultimately have "split comma (pre @ join [comma, space] (x1 # x2 # os)) =
      (pre @ x1) # split comma ([space] @ join [comma, space] (x2 # os))"
    using split_append[of comma "pre @ x1" "[space] @ join [comma, space] (x2 # os)"]
    by simp
  moreover have "split comma ([space] @ join [comma, space] (x2 # os)) =
      ([space] @ x2) # map ((#) space) os"
    using Cons.IH[OF s, of x2] Cons.prems(2) by simp
  ultimately show ?case by simp
qed

subsection \<open>The atom pattern on a rendered atom\<close>

lemma span_take: "\<forall>x \<in> set xs. P x \<Longrightarrow> \<not> P y \<Longrightarrow> takeWhile P (xs @ y # ys) = xs"
  by (induction xs) simp_all

lemma span_drop: "\<forall>x \<in> set xs. P x \<Longrightarrow> \<not> P y \<Longrightarrow> dropWhile P (xs @ y # ys) = y # ys"
  by (induction xs) simp_all

lemma str_atom_shape:
  "str_atom s r os = lparen # s @ rparen # r @ lparen # join [comma, space] os @ [rparen]"
  by (simp add: str_atom_def)

lemma valid_relation_chars:
  assumes "valid_relation r"
  shows "r \<noteq> [] \<and> ident_start (hd r) \<and> (\<forall>c \<in> set r. ident_char c)"
  using assms by (cases r) (auto simp: valid_relation_def list_all_iff ident_char_def)

lemma valid_objects_join:
  assumes "list_all valid_object os"
  shows "\<forall>c \<in> set (join [comma, space] os). not_rparen c"
proof
  fix c assume "c \<in> set (join [comma, space] os)"
  with set_join[of "[comma, space]" os] have
    "c \<in> set [comma, space] \<or> (\<exists>x \<in> set os. c \<in> set x)" by auto
  then show "not_rparen c"
  proof
    assume "c \<in> set [comma, space]"
    then show ?thesis by (auto simp: not_rparen_def comma_def space_def rparen_def)
  next
    assume "\<exists>x \<in> set os. c \<in> set x"
    then obtain x where "x \<in> set os" "c \<in> set x" by blast
    with assms have "\<not> has_paren x" by (simp add: list_all_iff valid_object_def)
    with \<open>c \<in> set x\<close> show ?thesis by (auto simp: has_paren_def not_rparen_def)
  qed
qed

lemma atom_regex_shape:
  assumes "s \<noteq> []" and "\<forall>c \<in> set s. not_rparen c"
    and "ident_start h" and "\<forall>c \<in> set (h # cs). ident_char c"
    and "\<forall>c \<in> set obs. not_rparen c"
  shows "atom_regex (lparen # s @ rparen # (h # cs) @ lparen # obs @ rparen # rest) =
     Some (lparen # s @ rparen # (h # cs) @ lparen # obs @ [rparen], s, h # cs, obs)"
proof -
  let ?r4 = "obs @ rparen # rest"
  let ?r2 = "(h # cs) @ lparen # ?r4"
  let ?r0 = "s @ rparen # ?r2"
  have nr: "\<not> not_rparen rparen" by (simp add: not_rparen_def)
  have nl: "\<not> ident_char lparen" by (simp add: ident_char_def ident_start_def lparen_def)
  have g1: "takeWhile not_rparen ?r0 = s" using assms(2) nr by (rule span_take)
  have d1: "dropWhile not_rparen ?r0 = rparen # ?r2" using assms(2) nr by (rule span_drop)
  have g2: "takeWhile ident_char ?r2 = h # cs" using assms(4) nl by (rule span_take)
  have d2: "dropWhile ident_char ?r2 = lparen # ?r4" using assms(4) nl by (rule span_drop)
  have g3: "takeWhile not_rparen ?r4 = obs" using assms(5) nr by (rule span_take)
  have d3: "dropWhile not_rparen ?r4 = rparen # rest" using assms(5) nr by (rule span_drop)
  have m: "take (length (lparen # ?r0) - length rest) (lparen # ?r0) =
      lparen # s @ rparen # (h # cs) @ lparen # obs @ [rparen]"
  proof -
    let ?T = "lparen # s @ rparen # (h # cs) @ lparen # obs @ [rparen]"
    have "take (length (?T @ rest) - length rest) (?T @ rest) = ?T"
      by (simp only: length_append add_diff_cancel_right' append_eq_conv_conj take_all
          order_refl take_append diff_self_eq_0 take_0 append_Nil2)
    then show ?thesis by simp
  qed
  show ?thesis
    unfolding atom_regex_def
    by (simp only: list.case if_False simp_thms Let_def g1 d1 g2 d2 g3 d3 assms(1) assms(3) m
        refl if_True not_False_eq_True)
qed

lemma atom_regex_rendered:
  assumes "valid_subject s" and "valid_relation r" and "list_all valid_object os"
  shows "atom_regex (str_atom s r os @ rest) =
     Some (str_atom s r os, s, r, join [comma, space] os)"
proof -
  have sP: "\<forall>c \<in> set s. not_rparen c"
    using assms(1) by (auto simp: valid_subject_def has_paren_def not_rparen_def)
  from valid_relation_chars[OF assms(2)] have
    rne: "r \<noteq> []" and rs: "ident_start (hd r)" and rc: "\<forall>c \<in> set r. ident_char c"
    by simp_all
  have oP: "\<forall>c \<in> set (join [comma, space] os). not_rparen c"
    using assms(3) by (rule valid_objects_join)
  from rne obtain h cs where r: "r = h # cs" by (cases r) auto
  from assms(1) have sne: "s \<noteq> []" by (simp add: valid_subject_def)
  from rs r have hs: "ident_start h" by simp
  from rc r have hc: "\<forall>c \<in> set (h # cs). ident_char c" by simp
  from atom_regex_shape[OF sne sP hs hc oP, of rest] show ?thesis
    by (simp add: str_atom_shape r)
qed

subsection \<open>parse\_atom on a rendered atom\<close>

lemma strip_trimmed: "trimmed t \<Longrightarrow> strip t = t"
  by (simp add: trimmed_def)

lemma strip_relation: "valid_relation r \<Longrightarrow> strip r = r"
proof -
  assume v: "valid_relation r"
  from valid_relation_chars[OF v] have
    ne: "r \<noteq> []" and c: "\<forall>c \<in> set r. ident_char c" by simp_all
  from ne have "hd r \<in> set r" "last r \<in> set r" by simp_all
  with c have "\<not> isspace (hd r)" "\<not> isspace (last r)"
    by (simp_all add: ident_char_not_space)
  with ne show ?thesis by (rule strip_id)
qed

lemma strip_objects:
  assumes "list_all valid_object (x1 # os)"
  shows "strip (join [comma, space] (x1 # os)) = join [comma, space] (x1 # os)"
proof -
  from assms have v1: "valid_object x1" and vl: "valid_object (last (x1 # os))"
    by (simp_all add: list_all_iff)
  from v1 have n1: "x1 \<noteq> []" and t1: "trimmed x1" by (simp_all add: valid_object_def)
  from vl have nl: "last (x1 # os) \<noteq> []" and tl: "trimmed (last (x1 # os))"
    by (simp_all add: valid_object_def)
  from join_hd[OF n1, of "[comma, space]" os] have
    ne: "join [comma, space] (x1 # os) \<noteq> []" and
    h: "hd (join [comma, space] (x1 # os)) = hd x1" by simp_all
  from join_last[OF _ nl, of "[comma, space]"] have
    l: "last (join [comma, space] (x1 # os)) = last (last (x1 # os))" by simp
  from trimmed_ends[OF t1 n1] h have a: "\<not> isspace (hd (join [comma, space] (x1 # os)))"
    by simp
  from trimmed_ends[OF tl nl] l have b: "\<not> isspace (last (join [comma, space] (x1 # os)))"
    by simp
  from ne a b show ?thesis by (rule strip_id)
qed

lemma strip_pieces:
  assumes "list_all valid_object (x1 # os)"
  shows "map strip (split comma (join [comma, space] (x1 # os))) = x1 # os"
proof -
  from assms have c: "\<forall>x \<in> set (x1 # os). comma \<notin> set x"
    by (simp add: list_all_iff valid_object_def)
  have "split comma ([] @ join [comma, space] (x1 # os)) = ([] @ x1) # map ((#) space) os"
    by (rule split_join) (use c in simp_all)
  then have s: "split comma (join [comma, space] (x1 # os)) = x1 # map ((#) space) os"
    by simp
  from assms have t: "\<forall>x \<in> set (x1 # os). trimmed x"
    by (simp add: list_all_iff valid_object_def)
  have "map strip (map ((#) space) os) = os"
  proof -
    have "map strip (map ((#) space) os) = map strip os"
      by (simp add: strip_space_Cons)
    also have "\<dots> = os" using t by (simp add: map_idI strip_trimmed)
    finally show ?thesis .
  qed
  with s t show ?thesis by (simp add: strip_trimmed)
qed

lemma parse_atom_rendered:
  assumes "valid_subject s" and "valid_relation r" and "list_all valid_object os"
    and "p < length tokens" and "tokens ! p = str_atom s r os"
  shows "parse_atom tokens p = Inr (Atom s r os, p + 1)"
proof -
  from atom_regex_rendered[OF assms(1,2,3), of "[]"] have
    m: "atom_regex (str_atom s r os) = Some (str_atom s r os, s, r, join [comma, space] os)"
    by simp
  from assms(1) have ss: "strip s = s" and sp: "\<not> has_paren s"
    by (simp_all add: valid_subject_def trimmed_def)
  from assms(2) have sr: "strip r = r" by (rule strip_relation)
  show ?thesis
  proof (cases os)
    case Nil
    have "strip [] = []" by (simp add: strip_def)
    with Nil m ss sp sr assms(4,5) show ?thesis
      by (simp add: parse_atom_def)
  next
    case (Cons x1 rest)
    with assms(3) have v: "list_all valid_object (x1 # rest)" by simp
    from strip_objects[OF v] have so: "strip (join [comma, space] (x1 # rest)) =
        join [comma, space] (x1 # rest)" .
    from v have "valid_object x1" by simp
    then have "x1 \<noteq> []" by (simp add: valid_object_def)
    from join_hd[OF this, of "[comma, space]" rest] have
      ne: "join [comma, space] (x1 # rest) \<noteq> []" by simp
    from v have "filter has_paren (x1 # rest) = []"
      by (auto simp: list_all_iff valid_object_def filter_empty_conv)
    with Cons m ss sp sr so ne strip_pieces[OF v] assms(4,5) show ?thesis
      by (simp add: parse_atom_def Let_def)
  qed
qed

subsection \<open>Tokens of a rendered literal\<close>

lemma str_atom_facts:
  "str_atom s r os \<noteq> []" "hd (str_atom s r os) = lparen" "last (str_atom s r os) = rparen"
  "str_atom s r os \<noteq> [op_value NOT]"
  by (simp_all add: str_atom_shape lparen_def)

lemma two_char_ops_heads: "\<forall>w \<in> set two_char_ops. w \<noteq> [] \<and> hd w \<noteq> 172"
  by (simp add: two_char_ops_def ustr_def)

lemma not_glyph_step:
  assumes "i < n" and "length t \<noteq> 0"
  shows "tokenize_loop (replicate n 172 @ t) i toks =
     tokenize_loop (replicate n 172 @ t) (i + 1) (toks @ [[172]])"
proof -
  let ?text = "replicate n 172 @ t"
  from assms(1) have lt: "i < length ?text" by simp
  from assms(1) have c: "?text ! i = 172" by (simp add: nth_append)
  have ns: "\<not> isspace 172" by (simp add: isspace_def)
  from assms(1) obtain k where k: "n - i = Suc k" by (cases "n - i") auto
  have d: "drop i ?text = 172 # (replicate k 172 @ t)"
    using assms(1) k by (simp add: replicate_append_same[symmetric])
  have a: "atom_regex (drop i ?text) = None"
    unfolding d by (simp add: atom_regex_def lparen_def)
  have "take 2 (drop i ?text) \<noteq> [] \<and> hd (take 2 (drop i ?text)) = 172"
    unfolding d by simp
  with two_char_ops_heads have tw: "take 2 (drop i ?text) \<notin> set two_char_ops" by blast
  have so: "172 \<in> set single_ops" by (simp add: single_ops_def)
  have no: "normalize_one 172 = [172]" by (simp add: normalize_one_def)
  show ?thesis
    by (subst tokenize_loop.simps) (simp only: lt c ns a tw so no if_True if_False
        option.case simp_thms)
qed

lemma tokenize_loop_literal:
  assumes "valid_subject s" and "valid_relation r" and "list_all valid_object os"
  shows "i \<le> n \<Longrightarrow>
     tokenize_loop (replicate n 172 @ str_atom s r os) i toks =
       Inr (toks @ replicate (n - i) [172] @ [str_atom s r os])"
proof (induction "n - i" arbitrary: i toks)
  case 0
  let ?t = "str_atom s r os"
  let ?text = "replicate n 172 @ ?t"
  from 0 have i: "i = n" by simp
  have lt: "n < length ?text" using str_atom_facts(1)[of s r os] by simp
  have c: "?text ! n = lparen"
    using str_atom_facts(1,2)[of s r os] by (simp add: nth_append hd_conv_nth)
  have ns: "\<not> isspace lparen" by (simp add: isspace_def lparen_def)
  have d: "drop n ?text = ?t" by simp
  from atom_regex_rendered[OF assms, of "[]"] have
    m: "atom_regex ?t = Some (?t, s, r, join [comma, space] os)" by simp
  have e: "tokenize_loop ?text (n + length ?t) (toks @ [?t]) = Inr (toks @ [?t])"
    by (subst tokenize_loop.simps) simp
  have "tokenize_loop ?text n toks = Inr (toks @ [?t])"
    by (subst tokenize_loop.simps) (simp only: lt c ns d m if_True if_False option.case
        fst_conv e)
  with i show ?case by simp
next
  case (Suc k)
  then have lt: "i < n" by simp
  have ne: "length (str_atom s r os) \<noteq> 0" using str_atom_facts(1)[of s r os] by simp
  from Suc(2) have k: "k = n - (i + 1)" by simp
  from lt have le: "i + 1 \<le> n" by simp
  have "tokenize_loop (replicate n 172 @ str_atom s r os) i toks =
      tokenize_loop (replicate n 172 @ str_atom s r os) (i + 1) (toks @ [[172]])"
    using lt ne by (rule not_glyph_step)
  also have "\<dots> = Inr ((toks @ [[172]]) @ replicate (n - (i + 1)) [172] @ [str_atom s r os])"
    using Suc(1)[OF k le] .
  also have "(toks @ [[172]]) @ replicate (n - (i + 1)) [172] @ [str_atom s r os] =
      toks @ replicate (n - i) [172] @ [str_atom s r os]"
  proof -
    from lt obtain j where j: "n - i = Suc j" by (cases "n - i") auto
    then have "n - (i + 1) = j" by simp
    with j show ?thesis by simp
  qed
  finally show ?case .
qed

lemma strip_literal:
  "strip (replicate n 172 @ str_atom s r os) = replicate n 172 @ str_atom s r os"
proof (rule strip_id)
  show "replicate n 172 @ str_atom s r os \<noteq> []" using str_atom_facts(1)[of s r os] by simp
  show "\<not> isspace (hd (replicate n 172 @ str_atom s r os))"
    using str_atom_facts(1,2)[of s r os]
    by (cases n) (simp_all add: isspace_def lparen_def)
  show "\<not> isspace (last (replicate n 172 @ str_atom s r os))"
    using str_atom_facts(1,3)[of s r os] by (simp add: isspace_def rparen_def)
qed

subsection \<open>Parsing the tokens of a literal\<close>

lemma parse_not_literal:
  assumes "valid_subject s" and "valid_relation r" and "list_all valid_object os"
  shows "i \<le> n \<Longrightarrow>
     parse_not (replicate n [172] @ [str_atom s r os]) i =
       Inr ((negation ^^ (n - i)) (Atom s r os), n + 1)"
proof (induction "n - i" arbitrary: i)
  case 0
  let ?tokens = "replicate n [172] @ [str_atom s r os]"
  from 0 have i: "i = n" by simp
  have t: "?tokens ! n = str_atom s r os" by (simp add: nth_append)
  have lt: "n < length ?tokens" by simp
  from parse_atom_rendered[OF assms lt t] have
    a: "parse_atom ?tokens n = Inr (Atom s r os, n + 1)" .
  have "parse_not ?tokens n = Inr (Atom s r os, n + 1)"
    by (subst parse_not.simps) (simp only: t lt str_atom_facts(4) a simp_thms if_False)
  with i show ?case by simp
next
  case (Suc k)
  let ?tokens = "replicate n [172] @ [str_atom s r os]"
  from Suc(2) have lt: "i < n" and k: "k = n - (i + 1)" and le: "i + 1 \<le> n" by simp_all
  from lt have t: "?tokens ! i = [op_value NOT]" by (simp add: nth_append)
  from lt have l: "i < length ?tokens" by simp
  from Suc(1)[OF k le] have
    r: "parse_not ?tokens (i + 1) = Inr ((negation ^^ (n - (i + 1))) (Atom s r os), n + 1)" .
  from lt obtain j where j: "n - i = Suc j" by (cases "n - i") auto
  then have j': "n - (i + 1) = j" by simp
  have "parse_not ?tokens i =
      Inr (LogicalExpression (Some NOT) [(negation ^^ (n - (i + 1))) (Atom s r os)], n + 1)"
    by (subst parse_not.simps) (simp only: t l r simp_thms if_True sum.case prod.case)
  then show ?case unfolding j j' by (simp add: negation_def)
qed

lemma parse_literal_tokens:
  assumes "parse_not tokens 0 = Inr (x, length tokens)"
  shows "parse_iff tokens 0 = Inr (x, length tokens)"
proof -
  have a: "parse_and_loop tokens (length tokens) [x] = Inr ([x], length tokens)"
    by (subst parse_and_loop.simps) simp
  have b: "parse_and tokens 0 = Inr (x, length tokens)"
    using assms a by (simp add: parse_and_def)
  have c: "parse_or_loop tokens (length tokens) [x] = Inr ([x], length tokens)"
    by (subst parse_or_loop.simps) simp
  have d: "parse_or tokens 0 = Inr (x, length tokens)"
    using b c by (simp add: parse_or_def)
  have e: "parse_implies_loop tokens (length tokens) x = Inr (x, length tokens)"
    by (subst parse_implies_loop.simps) simp
  have f: "parse_implies tokens 0 = Inr (x, length tokens)"
    using d e by (simp add: parse_implies_def)
  have g: "parse_iff_loop tokens (length tokens) x = Inr (x, length tokens)"
    by (subst parse_iff_loop.simps) simp
  show ?thesis using f g by (simp add: parse_iff_def)
qed

lemma parse_rendered_literal:
  assumes "valid_subject s" and "valid_relation r" and "list_all valid_object os"
  shows "parse (replicate n 172 @ str_atom s r os) = Inr ((negation ^^ n) (Atom s r os))"
proof -
  let ?tokens = "replicate n [172] @ [str_atom s r os]"
  have t: "tokenize (replicate n 172 @ str_atom s r os) = Inr ?tokens"
    using tokenize_loop_literal[OF assms, of 0 n "[]"] by (simp add: tokenize_def)
  have "parse_not ?tokens 0 = Inr ((negation ^^ n) (Atom s r os), length ?tokens)"
    using parse_not_literal[OF assms, of 0 n] by simp
  then have "parse_iff ?tokens 0 = Inr ((negation ^^ n) (Atom s r os), length ?tokens)"
    by (rule parse_literal_tokens)
  with t show ?thesis by (simp add: parse_def strip_literal)
qed

lemma str_expr_literal:
  "str_expr ((negation ^^ n) (Atom s r os)) = Inr (replicate n 172 @ str_atom s r os)"
  by (induction n) (simp_all add: negation_def)

lemma valid_literal_shape:
  "valid_literal e \<Longrightarrow>
     \<exists>n s r os. e = (negation ^^ n) (Atom s r os) \<and>
       valid_subject s \<and> valid_relation r \<and> list_all valid_object os"
proof (induction e rule: valid_literal.induct)
  case (1 s r os)
  then have "Atom s r os = (negation ^^ 0) (Atom s r os) \<and>
      valid_subject s \<and> valid_relation r \<and> list_all valid_object os" by simp
  then show ?case by blast
next
  case (2 opr ops)
  from "2.prems" obtain x where ops: "ops = [x]" and o: "opr = Some NOT" and v: "valid_literal x"
    by (auto split: list.splits)
  from "2.IH"[OF ops refl v] obtain n s r os where
    x: "x = (negation ^^ n) (Atom s r os)" and
    a: "valid_subject s \<and> valid_relation r \<and> list_all valid_object os"
    by blast
  from x ops o have "LogicalExpression opr ops = (negation ^^ Suc n) (Atom s r os)"
    by (simp add: negation_def)
  with a show ?case by blast
qed

text \<open>
  Rendering a literal and parsing the text gives the literal back.
\<close>

lemma parse_of_rendered_literal:
  assumes "valid_literal e"
  shows "\<exists>t. str_expr e = Inr t \<and> parse t = Inr e"
proof -
  from valid_literal_shape[OF assms] obtain n s r os where
    e: "e = (negation ^^ n) (Atom s r os)" and
    v: "valid_subject s" "valid_relation r" "list_all valid_object os"
    by blast
  from str_expr_literal[of n s r os] parse_rendered_literal[OF v, of n] e
  show ?thesis by simp
qed

section \<open>Evaluation on concrete inputs\<close>

lemmas parser_eval =
  parse_expression_def parse_def tokenize_def ustr_def tokenize_loop.simps atom_regex_def
  isspace_def lparen_def rparen_def comma_def space_def strip_def not_rparen_def
  ident_char_def ident_start_def two_char_ops_def single_ops_def normalize_one_def
  normalize_two_def Let_def parse_iff_def parse_iff_loop.simps parse_implies_def
  parse_implies_loop.simps parse_or_def parse_or_loop.simps parse_and_def
  parse_and_loop.simps parse_not.simps parse_atom_def has_paren_def

lemmas rules_eval =
  apply_all_rules_def rule_manager_init_def modus_ponens_def mp_fact_def mp_justification_def
  modus_tollens_def mt_neg_def mt_justification_def hypothetical_syllogism_def hs_pair_def
  hs_justification_def disjunctive_syllogism_def ds_neg_def ds_justification_def
  simplification_def simp_justification_def conjunction_def conj_justification_def
  addition_def resolution_def res_pair_def res_literals_def res_justification_def
  are_complementary_def biconditional_elimination_def be_iff_def be_justification_def
  emit_def set_add_def index_def fstring_def str_atom_def match_term_def is_variable_def
  bindings_get_def ustr_def lparen_def rparen_def comma_def space_def Let_def

lemmas engine_eval =
  init_engine_def add_fact_def add_rule_def clear_def infer_all_def infer_loop.simps
  infer_trace.simps detect_contradictions_def detect_step_def contradiction_text_def
  example_engine_def example_run_def pedro_is_student_def students_study_def
  capped_engine_def contradiction_engine_def pedro_feliz_def negative_cap_engine_def

lemma example_engine_returns:
  "infer_all example_engine = Inr (fst example_run, snd example_run)"
proof -
  have "\<not> isl (infer_all example_engine)"
    by (simp add: engine_eval rules_eval)
  then show ?thesis by (simp add: example_run_def)
qed

lemma example_engine_saturates: "snd (last (infer_trace example_engine 0)) = []"
  by (simp add: engine_eval rules_eval)

text \<open>
  Scenario A with the argument list written out: the rule text parses, Modus Ponens derives
  \<^verbatim>\<open>(Pedro)estudia()\<close> in the first pass and the second pass is empty.
\<close>

lemma scenario_a_with_argument_list:
  "parse_expression (ustr ''(X)IsA(estudiante) '' @ [8594] @ ustr '' (X)estudia()'') =
     Inr students_study
   \<and> map (\<lambda>c. (conclusion c, depth c)) (derived_facts (snd example_run)) =
       [(Atom (ustr ''Pedro'') (ustr ''estudia'') [], 1)]
   \<and> iterations (snd example_run) = 2"
  by (simp add: parser_eval engine_eval rules_eval)

text \<open>
  A negation without operand is not well formed: the contradiction check reads
  \<^verbatim>\<open>neg.operands[0]\<close> and \<^verbatim>\<open>infer_all\<close> ends in \<^verbatim>\<open>IndexError\<close>.
\<close>

lemma negation_without_operand_raises:
  "infer_all (add_fact (init_engine 100 False) (LogicalExpression (Some NOT) [])) =
     Inl IndexError"
  by (simp add: engine_eval rules_eval)

section \<open>Claims about the parser\<close>

text \<open>
  C1 (parser round trip). \<^verbatim>\<open>__str__\<close> renders a compound with a binary connective inside
  parentheses, which the tokenizer knows only as the delimiters of an atom: the rendering
  of \<^verbatim>\<open>(a)P() \<and> (b)Q()\<close> is \<^verbatim>\<open>((a)P() \<and> (b)Q())\<close>, its first token is read as an atom
  with subject \<^verbatim>\<open>(a\<close>, and the closing parenthesis raises
  \<^verbatim>\<open>ValueError("Unexpected character: ) at position 16")\<close>. The rendering of the
  implication of Scenario A fails in the same way, and so does a negated conjunction.
\<close>

theorem rendered_compound_is_rejected:
  "str_expr (LogicalExpression (Some AND)
      [Atom (ustr ''a'') (ustr ''P'') [], Atom (ustr ''b'') (ustr ''Q'') []]) =
     Inr (ustr ''((a)P() '' @ [8743] @ ustr '' (b)Q())'')
   \<and> parse (ustr ''((a)P() '' @ [8743] @ ustr '' (b)Q())'') = Inl (UnexpectedCharacter 41 16)
   \<and> str_expr students_study = Inr (ustr ''((X)IsA(estudiante) '' @ [8594] @ ustr '' (X)estudia())'')
   \<and> parse (ustr ''((X)IsA(estudiante) '' @ [8594] @ ustr '' (X)estudia())'') =
       Inl (UnexpectedCharacter 41 34)
   \<and> str_expr (LogicalExpression (Some NOT) [LogicalExpression (Some AND)
        [Atom (ustr ''a'') (ustr ''P'') [], Atom (ustr ''b'') (ustr ''Q'') []]]) =
     Inr ([172] @ ustr ''((a)P() '' @ [8743] @ ustr '' (b)Q())'')
   \<and> parse ([172] @ ustr ''((a)P() '' @ [8743] @ ustr '' (b)Q())'') =
       Inl (UnexpectedCharacter 41 17)"
  by (simp add: parser_eval str_atom_def students_study_def)

text \<open>
  C2 (Scenario A). The fact \<^verbatim>\<open>(Pedro)IsA(estudiante)\<close> is accepted, but the rule of the
  scenario, \<^verbatim>\<open>(X)IsA(estudiante) \<rightarrow> (X)estudia\<close>, is not: the atom pattern of the tokenizer
  requires an argument list, \<^verbatim>\<open>(X)estudia\<close> has none, and \<^verbatim>\<open>add_rule\<close> raises
  \<^verbatim>\<open>ValueError("Unexpected character: ( at position 21")\<close>. The engine never holds the
  rule, and \<^verbatim>\<open>infer_all\<close> on the fact alone derives nothing in a single pass.
\<close>

theorem scenario_a_rule_is_rejected:
  "add_fact_text (init_engine 100 False) (ustr ''(Pedro)IsA(estudiante)'') =
     Inr (add_fact (init_engine 100 False)
            (Atom (ustr ''Pedro'') (ustr ''IsA'') [ustr ''estudiante'']))
   \<and> add_rule_text
       (add_fact (init_engine 100 False)
          (Atom (ustr ''Pedro'') (ustr ''IsA'') [ustr ''estudiante'']))
       (ustr ''(X)IsA(estudiante) '' @ [8594] @ ustr '' (X)estudia'') =
     Inl (UnexpectedCharacter 40 21)"
  by (simp add: add_fact_text_def add_rule_text_def parser_eval)

text \<open>
  C3. The tokenizer knows the glyphs, the one-character aliases and \<^verbatim>\<open>->\<close>, \<^verbatim>\<open>=>\<close>.
  It has no branch for the word forms, and it compares a slice of two characters with the
  three-character aliases \<^verbatim>\<open><->\<close> and \<^verbatim>\<open><=>\<close>, which never match: \<^verbatim>\<open>AND\<close> and
  \<^verbatim>\<open><->\<close> between two atoms raise \<^verbatim>\<open>ValueError\<close> at their first character, where the
  glyph \<open>\<and>\<close> and the alias \<^verbatim>\<open>&\<close> parse to the same conjunction.
\<close>

theorem word_and_long_aliases_are_rejected:
  "parse (ustr ''(a)P() AND (b)Q()'') = Inl (UnexpectedCharacter 65 7)
   \<and> parse (ustr ''(a)P() and (b)Q()'') = Inl (UnexpectedCharacter 97 7)
   \<and> parse (ustr ''(a)P() <-> (b)Q()'') = Inl (UnexpectedCharacter 60 7)
   \<and> parse (ustr ''(a)P() <=> (b)Q()'') = Inl (UnexpectedCharacter 60 7)
   \<and> parse (ustr ''(a)P() '' @ [8743] @ ustr '' (b)Q()'') =
       Inr (LogicalExpression (Some AND)
              [Atom (ustr ''a'') (ustr ''P'') [], Atom (ustr ''b'') (ustr ''Q'') []])
   \<and> parse (ustr ''(a)P() & (b)Q()'') =
       Inr (LogicalExpression (Some AND)
              [Atom (ustr ''a'') (ustr ''P'') [], Atom (ustr ''b'') (ustr ''Q'') []])"
  by (simp add: parser_eval)

section \<open>Claims about the engine\<close>

text \<open>
  C4 (fixpoint idempotence), as amended. When the first \<^verbatim>\<open>infer_all\<close> ended on a pass that
  derived nothing, or made no pass at all, a second call with nothing added in between
  returns the same engine state and the same result, iteration count apart: it appends no
  chain and adds nothing to the knowledge base. A first call that stopped at
  \<^verbatim>\<open>max_iterations\<close> after a productive pass is not covered.
\<close>

theorem second_infer_all_derives_nothing:
  assumes "infer_all s = Inr (s1, r1)"
    and "infer_trace s 0 = [] \<or> snd (last (infer_trace s 0)) = []"
  shows "\<exists>n. infer_all s1 = Inr (s1, r1\<lparr>iterations := n\<rparr>)"
proof -
  from assms(1) obtain t n1 where
    l: "infer_loop s 0 = Inr (t, n1)" and d: "detect_contradictions t = Inr s1" and
    r: "r1 = \<lparr>res_original_facts = original_facts s1, res_original_rules = original_rules s1,
          derived_facts = derivation_chains s1, iterations = n1,
          res_contradictions = contradictions s1\<rparr>"
    by (cases rule: infer_all_cases)
  from detect_contradictions_frame[OF d] obtain found where s1: "s1 = t\<lparr>contradictions := found\<rparr>"
    by blast
  have d1: "detect_contradictions s1 = Inr s1"
    using detect_contradictions_kb[OF d, of s1] s1 by simp
  have fr: "max_iterations t = max_iterations s"
    using infer_loop_frame[OF l] by simp
  have "\<exists>n. infer_loop s1 0 = Inr (s1, n)"
  proof (cases "infer_trace s 0 = []")
    case True
    with l have "\<not> 0 < max_iterations s"
      by (subst (asm) infer_trace.simps, subst (asm) infer_loop.simps)
         (auto split: if_splits sum.splits)
    with fr s1 show ?thesis by (subst infer_loop.simps) simp
  next
    case False
    with assms(2) have "snd (last (infer_trace s 0)) = []" by simp
    from infer_loop_saturated[OF l False this] fr s1 show ?thesis
      by (subst infer_loop.simps) simp
  qed
  then obtain n where "infer_loop s1 0 = Inr (s1, n)" ..
  with d1 r show ?thesis by (simp add: infer_all_def)
qed

theorem second_infer_all_derives_nothing_witness:
  "infer_all example_engine = Inr (fst example_run, snd example_run)
   \<and> snd (last (infer_trace example_engine 0)) = []
   \<and> (\<exists>n. infer_all (fst example_run) =
          Inr (fst example_run, (snd example_run)\<lparr>iterations := n\<rparr>))"
  using second_infer_all_derives_nothing[OF example_engine_returns]
    example_engine_returns example_engine_saturates
  by simp

text \<open>
  The claim as stated fails when the cap cuts the first call short: with
  \<^verbatim>\<open>max_iterations=1\<close>, the first call derives \<^verbatim>\<open>(b)Q() \<and> (c)R()\<close> by Modus Ponens and
  stops; the second call derives both conjuncts by Simplification.
\<close>

theorem second_infer_all_after_cap_counterexample:
  "map conclusion (derived_facts (snd (projr (infer_all capped_engine)))) =
     [LogicalExpression (Some AND)
        [Atom (ustr ''b'') (ustr ''Q'') [], Atom (ustr ''c'') (ustr ''R'') []]]
   \<and> map conclusion
       (derived_facts (snd (projr (infer_all (fst (projr (infer_all capped_engine))))))) =
     [LogicalExpression (Some AND)
        [Atom (ustr ''b'') (ustr ''Q'') [], Atom (ustr ''c'') (ustr ''R'') []],
      Atom (ustr ''b'') (ustr ''Q'') [], Atom (ustr ''c'') (ustr ''R'') []]"
  by (simp add: engine_eval rules_eval)

text \<open>
  C5 (termination), as amended. On a well-formed knowledge base \<^verbatim>\<open>infer_all\<close> returns, for
  every value of \<^verbatim>\<open>max_iterations\<close>. The reported iteration count is the number of
  rule-application passes made; it is never negative and at most the larger of 0 and
  \<^verbatim>\<open>max_iterations\<close> (no pass is made when \<^verbatim>\<open>max_iterations\<close> is zero or negative), and
  when every pass derived something, so that the cap ended the loop, it equals the larger of
  0 and \<^verbatim>\<open>max_iterations\<close>.
\<close>

theorem infer_all_returns_within_the_cap:
  assumes "well_formed_kb (knowledge_base s)"
  shows "\<exists>s' r. infer_all s = Inr (s', r) \<and>
      iterations r = int (length (infer_trace s 0)) \<and>
      0 \<le> iterations r \<and> iterations r \<le> max 0 (max_iterations s) \<and>
      ((\<forall>p \<in> set (infer_trace s 0). snd p \<noteq> []) \<longrightarrow> iterations r = max 0 (max_iterations s))"
proof -
  from infer_loop_total[OF assms, of 0] obtain s1 n where
    l: "infer_loop s 0 = Inr (s1, n)" and w: "well_formed_kb (knowledge_base s1)"
    by blast
  from detect_contradictions_total[OF w] obtain s' where d: "detect_contradictions s1 = Inr s'" ..
  let ?r = "\<lparr>res_original_facts = original_facts s', res_original_rules = original_rules s',
             derived_facts = derivation_chains s', iterations = n,
             res_contradictions = contradictions s'\<rparr>"
  have r: "infer_all s = Inr (s', ?r)" using l d by (simp add: infer_all_def)
  have n: "n = int (length (infer_trace s 0))" using infer_loop_count[OF l] by simp
  have b: "n \<le> max 0 (max_iterations s)" using infer_trace_length[of s 0] n by simp
  have c: "(\<forall>p \<in> set (infer_trace s 0). snd p \<noteq> []) \<longrightarrow> n = max 0 (max_iterations s)"
    using infer_trace_all_productive[OF l] n by simp
  from r n b c show ?thesis by auto
qed

theorem infer_all_returns_within_the_cap_witness:
  "well_formed_kb (knowledge_base capped_engine)
   \<and> (\<exists>s' r. infer_all capped_engine = Inr (s', r) \<and> iterations r = 1
         \<and> iterations r = max_iterations capped_engine)"
proof -
  have w: "well_formed_kb (knowledge_base capped_engine)"
    by (simp add: well_formed_kb_def engine_eval rules_eval)
  have p: "\<forall>p \<in> set (infer_trace capped_engine 0). snd p \<noteq> []"
    by (simp add: engine_eval rules_eval)
  have m: "max_iterations capped_engine = 1"
    by (simp add: engine_eval rules_eval)
  from infer_all_returns_within_the_cap[OF w] obtain s' r where
    "infer_all capped_engine = Inr (s', r)"
    "(\<forall>p \<in> set (infer_trace capped_engine 0). snd p \<noteq> []) \<longrightarrow>
       iterations r = max 0 (max_iterations capped_engine)"
    by blast
  with p m have "infer_all capped_engine = Inr (s', r) \<and> iterations r = 1
      \<and> iterations r = max_iterations capped_engine"
    by simp
  with w show ?thesis by blast
qed

text \<open>
  The claim as stated, with \<^verbatim>\<open>max_iterations\<close> itself as the bound and as the count when
  the cap ends the loop, fails for a negative cap: with \<^verbatim>\<open>max_iterations=-1\<close> the loop
  condition \<^verbatim>\<open>iteration < self.max_iterations\<close> is false at once, \<^verbatim>\<open>infer_all\<close> returns
  after no pass, none of them empty, and reports \<^verbatim>\<open>iterations == 0\<close>, which is above the
  cap and different from it.
\<close>

theorem infer_all_with_a_negative_cap_counterexample:
  "well_formed_kb (knowledge_base negative_cap_engine)
   \<and> max_iterations negative_cap_engine = - 1
   \<and> \<not> isl (infer_all negative_cap_engine)
   \<and> infer_trace negative_cap_engine 0 = []
   \<and> iterations (snd (projr (infer_all negative_cap_engine))) = 0
   \<and> \<not> iterations (snd (projr (infer_all negative_cap_engine))) \<le>
         max_iterations negative_cap_engine
   \<and> iterations (snd (projr (infer_all negative_cap_engine))) \<noteq>
         max_iterations negative_cap_engine"
  by (simp add: well_formed_kb_def engine_eval rules_eval)

text \<open>
  C6. The contradictions of the result are computed from the knowledge base that the loop
  leaves, whatever the engine held before: one entry for every pair of an atom of that
  knowledge base and a negation of it whose operand is the atom, each pair once, the entry
  naming the atom. Where every negation has one operand, an atom present with its negation
  has exactly one entry.
\<close>

theorem contradictions_of_the_final_knowledge_base:
  assumes "infer_all s = Inr (s', r)" and "distinct (knowledge_base s)"
  shows "res_contradictions r =
           map (\<lambda>(a, ng). contradiction_entry a) (contradictory_pairs (knowledge_base s'))
       \<and> distinct (contradictory_pairs (knowledge_base s'))
       \<and> set (contradictory_pairs (knowledge_base s')) =
           {(a, ng). a \<in> set (knowledge_base s') \<and> is_Atom a \<and>
                     ng \<in> set (knowledge_base s') \<and> negated ng = Some a}
       \<and> ((\<forall>ng \<in> set (knowledge_base s'). is_op NOT ng \<longrightarrow> length (operands ng) = 1) \<and>
            is_Atom x \<and> x \<in> set (knowledge_base s') \<and>
            LogicalExpression (Some NOT) [x] \<in> set (knowledge_base s') \<longrightarrow>
            filter (\<lambda>p. fst p = x) (contradictory_pairs (knowledge_base s')) =
              [(x, LogicalExpression (Some NOT) [x])])"
proof -
  from assms(1) obtain s1 n where
    l: "infer_loop s 0 = Inr (s1, n)" and d: "detect_contradictions s1 = Inr s'" and
    r: "res_contradictions r = contradictions s'"
    by (cases rule: infer_all_cases) simp
  from detect_contradictions_frame[OF d] have kb: "knowledge_base s' = knowledge_base s1"
    by auto
  have "distinct (knowledge_base s')"
    using infer_loop_kb_distinct[OF l assms(2)] kb by simp
  then show ?thesis
    using detect_contradictions_result[OF d] r kb
      single_entry_of_an_atom[of "knowledge_base s'" x]
    by (simp add: distinct_contradictory_pairs set_contradictory_pairs)
qed

theorem contradictions_of_the_final_knowledge_base_witness:
  "infer_all contradiction_engine = Inr (projr (infer_all contradiction_engine))
   \<and> distinct (knowledge_base contradiction_engine)
   \<and> res_contradictions (snd (projr (infer_all contradiction_engine))) =
       [ustr ''Contradiction: (Pedro)Feliz() and '' @ [172] @ ustr ''(Pedro)Feliz() both present'']"
proof -
  have "\<not> isl (infer_all contradiction_engine)"
    by (simp add: engine_eval rules_eval)
  then have r: "infer_all contradiction_engine =
      Inr (fst (projr (infer_all contradiction_engine)), snd (projr (infer_all contradiction_engine)))"
    by simp
  have d: "distinct (knowledge_base contradiction_engine)"
    by (simp add: engine_eval rules_eval)
  have k: "knowledge_base (fst (projr (infer_all contradiction_engine))) =
      [pedro_feliz, LogicalExpression (Some NOT) [pedro_feliz]]"
    by (simp add: engine_eval rules_eval)
  from contradictions_of_the_final_knowledge_base[OF r d] r d show ?thesis
    by (simp add: k contradictory_pairs_def pairs_of_def contradiction_entry_def
        pedro_feliz_def str_atom_def ustr_def lparen_def rparen_def)
qed

text \<open>
  C7 (rule-order invariance). On a well-formed knowledge base, one pass over the rules
  returns, and the set of expressions it derives is the union of what each rule derives
  alone: two rule lists with the same rules, in any order, derive the same set. The order
  only decides which rule's justification a fact carries, as in \<open>order_kb\<close>, where
  \<^verbatim>\<open>(a)P()\<close> is justified by Modus Ponens in priority order and by Simplification in
  the reverse order.
\<close>

theorem rule_order_does_not_change_the_derived_set:
  assumes "well_formed_kb kb" and "set rules = set rules'"
  shows "\<exists>derived derived'.
      apply_all_rules rules kb = Inr derived \<and> apply_all_rules rules' kb = Inr derived' \<and>
      fst ` set derived = fst ` set derived' \<and>
      fst ` set derived = (\<Union>r \<in> set rules. solo_facts r kb)"
proof -
  from apply_all_rules_result[OF assms(1), of rules] obtain d where
    d: "apply_all_rules rules kb = Inr d" "fst ` set d = (\<Union>r \<in> set rules. solo_facts r kb)"
    by blast
  from apply_all_rules_result[OF assms(1), of rules'] obtain d' where
    d': "apply_all_rules rules' kb = Inr d'" "fst ` set d' = (\<Union>r \<in> set rules'. solo_facts r kb)"
    by blast
  from d d' assms(2) show ?thesis by simp
qed

theorem rule_order_does_not_change_the_derived_set_witness:
  "well_formed_kb order_kb
   \<and> set (rule_manager_init False) = set (rev (rule_manager_init False))
   \<and> (\<exists>derived derived'.
         apply_all_rules (rule_manager_init False) order_kb = Inr derived \<and>
         apply_all_rules (rev (rule_manager_init False)) order_kb = Inr derived' \<and>
         fst ` set derived = fst ` set derived')
   \<and> map fst (projr (apply_all_rules (rule_manager_init False) order_kb)) =
       [Atom (ustr ''a'') (ustr ''P'') [], Atom (ustr ''b'') (ustr ''Q'') []]
   \<and> take 12 (snd (hd (projr (apply_all_rules (rule_manager_init False) order_kb)))) =
       ustr ''Modus Ponens''
   \<and> take 14 (snd (hd (projr (apply_all_rules (rev (rule_manager_init False)) order_kb)))) =
       ustr ''Simplification''"
proof -
  have w: "well_formed_kb order_kb"
    by (simp add: well_formed_kb_def order_kb_def)
  have s: "set (rule_manager_init False) = set (rev (rule_manager_init False))"
    by simp
  have e1: "map fst (projr (apply_all_rules (rule_manager_init False) order_kb)) =
       [Atom (ustr ''a'') (ustr ''P'') [], Atom (ustr ''b'') (ustr ''Q'') []]"
    by (simp add: order_kb_def rules_eval)
  have e2: "take 12 (snd (hd (projr (apply_all_rules (rule_manager_init False) order_kb)))) =
       ustr ''Modus Ponens''"
    by (simp add: order_kb_def rules_eval)
  have e3: "take 14 (snd (hd (projr (apply_all_rules (rev (rule_manager_init False)) order_kb)))) =
       ustr ''Simplification''"
    by (simp add: order_kb_def rules_eval)
  from rule_order_does_not_change_the_derived_set[OF w s] obtain d where
    "\<exists>d'. apply_all_rules (rule_manager_init False) order_kb = Inr d \<and>
         apply_all_rules (rev (rule_manager_init False)) order_kb = Inr d' \<and>
         fst ` set d = fst ` set d' \<and>
         fst ` set d = (\<Union>r \<in> set (rule_manager_init False). solo_facts r order_kb)" ..
  then obtain d' where
    x: "apply_all_rules (rule_manager_init False) order_kb = Inr d \<and>
         apply_all_rules (rev (rule_manager_init False)) order_kb = Inr d' \<and>
         fst ` set d = fst ` set d' \<and>
         fst ` set d = (\<Union>r \<in> set (rule_manager_init False). solo_facts r order_kb)" ..
  from x have a: "apply_all_rules (rule_manager_init False) order_kb = Inr d"
    by (rule conjunct1)
  from x have b: "apply_all_rules (rev (rule_manager_init False)) order_kb = Inr d'"
    by (rule conjunct2[THEN conjunct1])
  from x have c: "fst ` set d = fst ` set d'"
    by (rule conjunct2[THEN conjunct2, THEN conjunct1])
  from a b c have ex: "\<exists>derived derived'.
         apply_all_rules (rule_manager_init False) order_kb = Inr derived \<and>
         apply_all_rules (rev (rule_manager_init False)) order_kb = Inr derived' \<and>
         fst ` set derived = fst ` set derived'"
    by (intro exI conjI)
  from w s ex e1 e2 e3 show ?thesis by (intro conjI)
qed

text \<open>
  C8. In one \<^verbatim>\<open>infer_all\<close> run the knowledge base only gains elements: from one iteration
  to the next it is no shorter and keeps its elements, the facts derived in an iteration are
  in the knowledge base entering the next one, every knowledge base of the run and every
  derived fact is in the final knowledge base, and the conclusion of every chain of the
  result is in the final knowledge base. The chains recorded before the call are assumed to
  have their conclusions in the knowledge base, as they do in every engine built by the
  engine's operations.
\<close>

theorem knowledge_base_only_grows:
  assumes "infer_all s = Inr (s', r)" and "chains_in_kb s"
  shows "iterations r = int (length (infer_trace s 0))
       \<and> (\<forall>k. Suc k < length (infer_trace s 0) \<longrightarrow>
             length (fst (infer_trace s 0 ! k)) \<le> length (fst (infer_trace s 0 ! Suc k)) \<and>
             set (fst (infer_trace s 0 ! k)) \<subseteq> set (fst (infer_trace s 0 ! Suc k)) \<and>
             fst ` set (snd (infer_trace s 0 ! k)) \<subseteq> set (fst (infer_trace s 0 ! Suc k)))
       \<and> (\<forall>p \<in> set (infer_trace s 0).
             set (fst p) \<subseteq> set (knowledge_base s') \<and> fst ` set (snd p) \<subseteq> set (knowledge_base s'))
       \<and> set (knowledge_base s) \<subseteq> set (knowledge_base s')
       \<and> length (knowledge_base s) \<le> length (knowledge_base s')
       \<and> (\<forall>c \<in> set (derived_facts r). conclusion c \<in> set (knowledge_base s'))"
proof -
  from assms(1) obtain s1 n where
    l: "infer_loop s 0 = Inr (s1, n)" and d: "detect_contradictions s1 = Inr s'" and
    r: "derived_facts r = derivation_chains s'" "iterations r = n"
    by (cases rule: infer_all_cases) simp
  from detect_contradictions_frame[OF d] have kb: "knowledge_base s' = knowledge_base s1"
    by auto
  obtain ext where ext: "knowledge_base s1 = knowledge_base s @ ext"
    using infer_loop_kb_prefix[OF l] by blast
  have a: "iterations r = int (length (infer_trace s 0))"
    using infer_loop_count[OF l] r(2) by simp
  have b: "\<forall>k. Suc k < length (infer_trace s 0) \<longrightarrow>
             length (fst (infer_trace s 0 ! k)) \<le> length (fst (infer_trace s 0 ! Suc k)) \<and>
             set (fst (infer_trace s 0 ! k)) \<subseteq> set (fst (infer_trace s 0 ! Suc k)) \<and>
             fst ` set (snd (infer_trace s 0 ! k)) \<subseteq> set (fst (infer_trace s 0 ! Suc k))"
    using infer_trace_consecutive[of _ s 0] by blast
  have c: "\<forall>p \<in> set (infer_trace s 0).
             set (fst p) \<subseteq> set (knowledge_base s') \<and> fst ` set (snd p) \<subseteq> set (knowledge_base s')"
    using infer_loop_trace_subset[OF l] kb by simp
  have e: "\<forall>c \<in> set (derived_facts r). conclusion c \<in> set (knowledge_base s')"
    using chains_in_kb_infer_all[OF assms] r(1) by (simp add: chains_in_kb_def)
  from a b c e ext kb show ?thesis by simp
qed

theorem knowledge_base_only_grows_witness:
  "infer_all example_engine = Inr (fst example_run, snd example_run)
   \<and> chains_in_kb example_engine
   \<and> iterations (snd example_run) = int (length (infer_trace example_engine 0))
   \<and> set (knowledge_base example_engine) \<subseteq> set (knowledge_base (fst example_run))
   \<and> length (knowledge_base example_engine) \<le> length (knowledge_base (fst example_run))"
proof -
  have c: "chains_in_kb example_engine"
    by (simp add: example_engine_def chains_in_kb_add_rule chains_in_kb_add_fact
        chains_in_kb_init)
  from knowledge_base_only_grows[OF example_engine_returns c] example_engine_returns c
  show ?thesis by simp
qed

text \<open>
  C9. \<^verbatim>\<open>infer_all\<close> never resets the derivation history: the chains of a result extend the
  chains the engine held before the call, so the result of a second call extends the result
  of the first; \<^verbatim>\<open>add_fact\<close> and \<^verbatim>\<open>add_rule\<close> leave the history as it is, and
  \<^verbatim>\<open>clear\<close> empties it.
\<close>

theorem derivation_history_is_kept:
  assumes "infer_all s = Inr (s1, r1)" and "infer_all s1 = Inr (s2, r2)"
  shows "(\<exists>new. derived_facts r1 = derivation_chains s @ new)
       \<and> (\<exists>new. derived_facts r2 = derived_facts r1 @ new)
       \<and> derivation_chains (add_fact s1 e) = derivation_chains s1
       \<and> derivation_chains (add_rule s1 e) = derivation_chains s1
       \<and> derivation_chains (clear s2) = []"
proof -
  from assms(1) obtain t1 n1 where
    l1: "infer_loop s 0 = Inr (t1, n1)" and d1: "detect_contradictions t1 = Inr s1" and
    r1: "derived_facts r1 = derivation_chains s1"
    by (cases rule: infer_all_cases) simp
  from assms(2) obtain t2 n2 where
    l2: "infer_loop s1 0 = Inr (t2, n2)" and d2: "detect_contradictions t2 = Inr s2" and
    r2: "derived_facts r2 = derivation_chains s2"
    by (cases rule: infer_all_cases) simp
  from detect_contradictions_frame[OF d1] have c1: "derivation_chains s1 = derivation_chains t1"
    by auto
  from detect_contradictions_frame[OF d2] have c2: "derivation_chains s2 = derivation_chains t2"
    by auto
  from infer_loop_chains[OF l1] obtain new1 where "derivation_chains t1 = derivation_chains s @ new1"
    by blast
  moreover from infer_loop_chains[OF l2] obtain new2 where
    "derivation_chains t2 = derivation_chains s1 @ new2"
    by blast
  ultimately show ?thesis
    using r1 r2 c1 c2 by (simp add: add_fact_def add_rule_def clear_def Let_def)
qed

theorem derivation_history_is_kept_witness:
  "infer_all example_engine = Inr (fst example_run, snd example_run)
   \<and> infer_all (fst example_run) =
       Inr (fst (projr (infer_all (fst example_run))), snd (projr (infer_all (fst example_run))))
   \<and> (\<exists>new. derived_facts (snd (projr (infer_all (fst example_run)))) =
          derived_facts (snd example_run) @ new)
   \<and> map conclusion (derived_facts (snd example_run)) =
       [Atom (ustr ''Pedro'') (ustr ''estudia'') []]"
proof -
  have "\<not> isl (infer_all (fst example_run))"
    by (simp add: engine_eval rules_eval)
  then have r2: "infer_all (fst example_run) =
      Inr (fst (projr (infer_all (fst example_run))), snd (projr (infer_all (fst example_run))))"
    by simp
  have c: "map conclusion (derived_facts (snd example_run)) =
      [Atom (ustr ''Pedro'') (ustr ''estudia'') []]"
    by (simp add: engine_eval rules_eval)
  from derivation_history_is_kept[OF example_engine_returns r2] example_engine_returns r2 c
  show ?thesis by blast
qed

text \<open>
  C10. \<^verbatim>\<open>add_rule\<close> on an expression whose top-level operator is neither IMPLIES nor IFF
  (an atom included) is \<^verbatim>\<open>add_fact\<close>: the expression goes to the knowledge base and
  to \<^verbatim>\<open>original_facts\<close>, \<^verbatim>\<open>original_rules\<close> is left as it is and, holding implications
  and biconditionals only, does not contain the expression; the same holds of the two
  operations on a string that parses to such an expression. An expression with top-level
  IMPLIES or IFF goes to the knowledge base and to \<^verbatim>\<open>original_rules\<close>, and
  \<^verbatim>\<open>original_facts\<close> is left as it is.
\<close>

theorem add_rule_of_a_non_implication:
  "(\<not> is_op IMPLIES e \<and> \<not> is_op IFF e \<longrightarrow>
      add_rule s e = add_fact s e \<and> e \<in> original_facts (add_rule s e) \<and>
      original_rules (add_rule s e) = original_rules s \<and>
      e \<in> set (knowledge_base (add_rule s e)) \<and>
      (rules_are_implications s \<longrightarrow> e \<notin> original_rules (add_rule s e)))
   \<and> (is_op IMPLIES e \<or> is_op IFF e \<longrightarrow>
      e \<in> original_rules (add_rule s e) \<and> original_facts (add_rule s e) = original_facts s \<and>
      e \<in> set (knowledge_base (add_rule s e)))
   \<and> (parse_expression t = Inr e \<and> \<not> is_op IMPLIES e \<and> \<not> is_op IFF e \<longrightarrow>
      add_rule_text s t = add_fact_text s t)
   \<and> (rules_are_implications s \<longrightarrow> rules_are_implications (add_rule s e))"
  by (auto simp: add_rule_def add_fact_def add_rule_text_def add_fact_text_def set_add_def
      Let_def rules_are_implications_def)

theorem add_rule_of_a_non_implication_witness:
  "\<not> is_op IMPLIES pedro_is_student \<and> \<not> is_op IFF pedro_is_student
   \<and> parse_expression (ustr ''(Pedro)IsA(estudiante)'') = Inr pedro_is_student
   \<and> rules_are_implications (init_engine 100 False)
   \<and> add_rule (init_engine 100 False) pedro_is_student =
       add_fact (init_engine 100 False) pedro_is_student
   \<and> pedro_is_student \<in> original_facts (add_rule (init_engine 100 False) pedro_is_student)
   \<and> pedro_is_student \<notin> original_rules (add_rule (init_engine 100 False) pedro_is_student)
   \<and> add_rule_text (init_engine 100 False) (ustr ''(Pedro)IsA(estudiante)'') =
       add_fact_text (init_engine 100 False) (ustr ''(Pedro)IsA(estudiante)'')
   \<and> is_op IMPLIES students_study
   \<and> students_study \<in> original_rules (add_rule (init_engine 100 False) students_study)"
proof -
  have a: "\<not> is_op IMPLIES pedro_is_student \<and> \<not> is_op IFF pedro_is_student"
    by (simp add: pedro_is_student_def)
  have p: "parse_expression (ustr ''(Pedro)IsA(estudiante)'') = Inr pedro_is_student"
    by (simp add: parser_eval pedro_is_student_def)
  have i: "rules_are_implications (init_engine 100 False)"
    by (simp add: rules_are_implications_def init_engine_def)
  have b: "is_op IMPLIES students_study"
    by (simp add: students_study_def)
  from add_rule_of_a_non_implication[of pedro_is_student "init_engine 100 False"
      "ustr ''(Pedro)IsA(estudiante)''"]
    add_rule_of_a_non_implication[of students_study "init_engine 100 False"]
    a p i b
  show ?thesis by blast
qed

end
